theory Spec2Isabelle
  imports Complex_Main "HOL-Library.Log_Nat" "HOL-Library.Multiset"
begin

section \<open>JavaScript numbers\<close>

text \<open>
  Every number of the viewer is an IEEE 754 binary64 value. A finite value is kept as the
  rational it denotes; the three special values are constructors of their own. The two
  zeros are identified: no modelled path divides by zero or prints a number, which is all
  that could tell them apart.
\<close>

datatype jsnum = NaN | NInf | Fin rat | PInf

text \<open>\<open>ilog2 q\<close> is the binary exponent of a non-zero rational: \<open>2^e \<le> |q| < 2^(e+1)\<close>.\<close>

definition ilog2 :: "rat \<Rightarrow> int" where
  "ilog2 q = (case quotient_of \<bar>q\<bar> of (a, b) \<Rightarrow>
      (let k = bitlen a - bitlen b in if 2 powi k \<le> \<bar>q\<bar> then k else k - 1))"

text \<open>Rounding a rational to the nearest integer, a tie going to the even neighbour.\<close>

definition round_even :: "rat \<Rightarrow> int" where
  "round_even r = (let f = \<lfloor>r\<rfloor>; d = r - of_int f in
     if d < 1 / 2 then f else if 1 / 2 < d then f + 1 else if even f then f else f + 1)"

text \<open>
  The spacing of binary64 values around \<open>q\<close>: 53 significant bits, and the subnormal
  spacing \<open>2^-1074\<close> below \<open>2^-1022\<close>.
\<close>

definition quantum :: "rat \<Rightarrow> rat" where
  "quantum q = 2 powi (max (ilog2 q) (- 1022) - 52)"

definition rnd :: "rat \<Rightarrow> rat" where
  "rnd q = (if q = 0 then 0 else of_int (round_even (q / quantum q)) * quantum q)"

text \<open>Round to nearest, ties to even, overflowing to an infinity: the result of every
  arithmetic operation on finite operands and of every decimal literal.\<close>

definition fl :: "rat \<Rightarrow> jsnum" where
  "fl q = (let r = rnd q in
     if 2 powi 1024 \<le> r then PInf else if r \<le> - (2 powi 1024) then NInf else Fin r)"

definition isFinite :: "jsnum \<Rightarrow> bool" where
  "isFinite a = (case a of Fin _ \<Rightarrow> True | _ \<Rightarrow> False)"

fun js_lt :: "jsnum \<Rightarrow> jsnum \<Rightarrow> bool" where
  "js_lt NaN _ = False"
| "js_lt _ NaN = False"
| "js_lt _ NInf = False"
| "js_lt NInf _ = True"
| "js_lt PInf _ = False"
| "js_lt (Fin a) PInf = True"
| "js_lt (Fin a) (Fin b) = (a < b)"

fun js_eq :: "jsnum \<Rightarrow> jsnum \<Rightarrow> bool" where
  "js_eq NaN _ = False"
| "js_eq _ NaN = False"
| "js_eq a b = (a = b)"

definition js_le :: "jsnum \<Rightarrow> jsnum \<Rightarrow> bool" where
  "js_le a b = (js_lt a b \<or> js_eq a b)"

definition js_gt :: "jsnum \<Rightarrow> jsnum \<Rightarrow> bool" where
  "js_gt a b = js_lt b a"

definition js_ge :: "jsnum \<Rightarrow> jsnum \<Rightarrow> bool" where
  "js_ge a b = js_le b a"

fun js_neg :: "jsnum \<Rightarrow> jsnum" where
  "js_neg NaN = NaN"
| "js_neg NInf = PInf"
| "js_neg PInf = NInf"
| "js_neg (Fin a) = Fin (- a)"

fun js_add :: "jsnum \<Rightarrow> jsnum \<Rightarrow> jsnum" where
  "js_add NaN _ = NaN"
| "js_add _ NaN = NaN"
| "js_add PInf NInf = NaN"
| "js_add NInf PInf = NaN"
| "js_add PInf _ = PInf"
| "js_add _ PInf = PInf"
| "js_add NInf _ = NInf"
| "js_add _ NInf = NInf"
| "js_add (Fin a) (Fin b) = fl (a + b)"

definition js_sub :: "jsnum \<Rightarrow> jsnum \<Rightarrow> jsnum" where
  "js_sub a b = js_add a (js_neg b)"

text \<open>The sign of an infinite product or quotient, from the sign of the finite operand.\<close>

definition signed_inf :: "bool \<Rightarrow> jsnum" where
  "signed_inf positive = (if positive then PInf else NInf)"

fun js_mul :: "jsnum \<Rightarrow> jsnum \<Rightarrow> jsnum" where
  "js_mul NaN _ = NaN"
| "js_mul _ NaN = NaN"
| "js_mul (Fin a) (Fin b) = fl (a * b)"
| "js_mul (Fin a) PInf = (if a = 0 then NaN else signed_inf (0 < a))"
| "js_mul (Fin a) NInf = (if a = 0 then NaN else signed_inf (a < 0))"
| "js_mul PInf (Fin b) = (if b = 0 then NaN else signed_inf (0 < b))"
| "js_mul NInf (Fin b) = (if b = 0 then NaN else signed_inf (b < 0))"
| "js_mul PInf PInf = PInf"
| "js_mul NInf NInf = PInf"
| "js_mul PInf NInf = NInf"
| "js_mul NInf PInf = NInf"

text \<open>Division; a zero divisor is taken as the positive zero.\<close>

fun js_div :: "jsnum \<Rightarrow> jsnum \<Rightarrow> jsnum" where
  "js_div NaN _ = NaN"
| "js_div _ NaN = NaN"
| "js_div (Fin a) (Fin b) =
     (if b = 0 then (if a = 0 then NaN else signed_inf (0 < a)) else fl (a / b))"
| "js_div (Fin a) PInf = Fin 0"
| "js_div (Fin a) NInf = Fin 0"
| "js_div PInf (Fin b) = signed_inf (0 \<le> b)"
| "js_div NInf (Fin b) = signed_inf (b < 0)"
| "js_div _ _ = NaN"

text \<open>\<open>Math.max\<close> and \<open>Math.min\<close> of two arguments: \<open>NaN\<close> if either is.\<close>

definition js_max :: "jsnum \<Rightarrow> jsnum \<Rightarrow> jsnum" where
  "js_max a b = (if a = NaN \<or> b = NaN then NaN else if js_lt a b then b else a)"

definition js_min :: "jsnum \<Rightarrow> jsnum \<Rightarrow> jsnum" where
  "js_min a b = (if a = NaN \<or> b = NaN then NaN else if js_lt b a then b else a)"

text \<open>\<open>Math.min(1, Math.max(0, t))\<close>, the clamp every handler and the normaliser apply.\<close>

definition clamp01 :: "jsnum \<Rightarrow> jsnum" where
  "clamp01 t = js_min (Fin 1) (js_max (Fin 0) t)"

section \<open>The region index and point picking\<close>

text \<open>One entry of \<open>hitBoxes\<close>: \<open>{uid, x, y, w, h, area}\<close>.\<close>

record hitbox =
  b_uid :: string
  b_x :: jsnum
  b_y :: jsnum
  b_w :: jsnum
  b_h :: jsnum
  b_area :: jsnum

text \<open>The test of \<open>pickBoxAt\<close>:
  \<open>u >= b.x && u <= b.x + b.w && v >= b.y && v <= b.y + b.h\<close>.\<close>

definition contains :: "hitbox \<Rightarrow> jsnum \<Rightarrow> jsnum \<Rightarrow> bool" where
  "contains b u v =
     (js_ge u (b_x b) \<and> js_le u (js_add (b_x b) (b_w b)) \<and>
      js_ge v (b_y b) \<and> js_le v (js_add (b_y b) (b_h b)))"

text \<open>\<open>pickBoxAt\<close>: the \<open>for ... of\<close> loop over \<open>hitBoxes\<close>, returning at the first match
  and \<open>null\<close> after the loop.\<close>

fun pickBoxAt :: "hitbox list \<Rightarrow> jsnum \<Rightarrow> jsnum \<Rightarrow> hitbox option" where
  "pickBoxAt [] u v = None"
| "pickBoxAt (b # bs) u v = (if contains b u v then Some b else pickBoxAt bs u v)"

text \<open>
  \<open>Array.prototype.sort\<close> with a comparator. The language fixes the result for a
  consistent comparator: the stable arrangement in which \<open>cmp a b > 0\<close> puts \<open>a\<close> after
  \<open>b\<close>. It is modelled by insertion from the right, an element going behind exactly
  those it compares greater than.
\<close>

fun insertBy :: "('a \<Rightarrow> 'a \<Rightarrow> bool) \<Rightarrow> 'a \<Rightarrow> 'a list \<Rightarrow> 'a list" where
  "insertBy gt a [] = [a]"
| "insertBy gt a (b # bs) = (if gt a b then b # insertBy gt a bs else a # b # bs)"

definition jsSort :: "('a \<Rightarrow> 'a \<Rightarrow> bool) \<Rightarrow> 'a list \<Rightarrow> 'a list" where
  "jsSort gt xs = foldr (insertBy gt) xs []"

text \<open>The comparator of the region index, \<open>(a, b) => a.area - b.area\<close>, is positive when
  the difference is.\<close>

definition areaAfter :: "hitbox \<Rightarrow> hitbox \<Rightarrow> bool" where
  "areaAfter a b = js_gt (js_sub (b_area a) (b_area b)) (Fin 0)"

section \<open>Pages and lines\<close>

text \<open>A decimal literal of the source denotes the nearest binary64 value.\<close>

definition lit :: "rat \<Rightarrow> jsnum" where
  "lit q = fl q"

text \<open>The types \<open>Line\<close>, \<open>LineWithUid\<close> and \<open>PageObj\<close>.\<close>

record line =
  line_id :: string
  transcription :: string
  bbox :: "jsnum \<times> jsnum \<times> jsnum \<times> jsnum"

record line_with_uid = line +
  uid :: string

record paragraph_obj =
  par_lines :: "line list"

record page_obj =
  width :: jsnum
  height :: jsnum
  paragraphs :: "paragraph_obj list"

definition digitChar :: "nat \<Rightarrow> char" where
  "digitChar d = char_of (48 + d)"

text \<open>The decimal numeral a template literal prints for an array index.\<close>

fun showNat :: "nat \<Rightarrow> string" where
  "showNat n = (if n < 10 then [digitChar n] else showNat (n div 10) @ [digitChar (n mod 10)])"

declare showNat.simps [simp del]

definition withUid :: "nat \<Rightarrow> nat \<Rightarrow> line \<Rightarrow> line_with_uid" where
  "withUid pIdx lIdx l = line.extend l (line_with_uid.fields (showNat pIdx @ ''-'' @ showNat lIdx))"

text \<open>\<open>getAllLinesForPage\<close>: every line of every paragraph, in order, with the uid
  \<open>`${pIdx}-${lIdx}`\<close>.\<close>

definition getAllLinesForPage :: "page_obj \<Rightarrow> line_with_uid list" where
  "getAllLinesForPage p =
     concat (map (\<lambda>(pIdx, par). map (\<lambda>(lIdx, l). withUid pIdx lIdx l) (enumerate 0 (par_lines par)))
                 (enumerate 0 (paragraphs p)))"

section \<open>The geometry normaliser\<close>

text \<open>A box as stored in \<open>boxByUidRef\<close> and \<open>activeBox\<close>: \<open>{x, y, w, h}\<close>.\<close>

record rect =
  r_x :: jsnum
  r_y :: jsnum
  r_w :: jsnum
  r_h :: jsnum

text \<open>The swap \<open>if (hi < lo) [lo, hi] = [hi, lo]\<close>.\<close>

definition swapIfInverted :: "jsnum \<Rightarrow> jsnum \<Rightarrow> jsnum \<times> jsnum" where
  "swapIfInverted lo hi = (if js_lt hi lo then (hi, lo) else (lo, hi))"

text \<open>
  Lines 736 to 752 of the page-render effect: divide by the page dimension, clamp to
  \<open>[0,1]\<close>, swap inverted corners, then \<open>w = Math.max(0, x2n - x1n)\<close>,
  \<open>h = Math.max(0, y2n - y1n)\<close> and \<open>area = w * h\<close>.
\<close>

definition normalizeBox :: "string \<Rightarrow> jsnum \<times> jsnum \<times> jsnum \<times> jsnum \<Rightarrow> jsnum \<Rightarrow> jsnum \<Rightarrow> hitbox" where
  "normalizeBox u bb pageW pageH =
     (case bb of (x1p, y1p, x2p, y2p) \<Rightarrow>
        (case swapIfInverted (clamp01 (js_div x1p pageW)) (clamp01 (js_div x2p pageW)) of (x1n, x2n) \<Rightarrow>
        (case swapIfInverted (clamp01 (js_div y1p pageH)) (clamp01 (js_div y2p pageH)) of (y1n, y2n) \<Rightarrow>
           (let w = js_max (Fin 0) (js_sub x2n x1n);
                h = js_max (Fin 0) (js_sub y2n y1n)
            in \<lparr>b_uid = u, b_x = x1n, b_y = y1n, b_w = w, b_h = h, b_area = js_mul w h\<rparr>))))"

text \<open>The guard against bad data (lines 733 and 734).\<close>

definition badData :: "jsnum \<times> jsnum \<times> jsnum \<times> jsnum \<Rightarrow> jsnum \<Rightarrow> jsnum \<Rightarrow> bool" where
  "badData bb pageW pageH =
     (case bb of (x1p, y1p, x2p, y2p) \<Rightarrow>
        \<not> list_all isFinite [x1p, y1p, x2p, y2p, pageW, pageH]
        \<or> js_le pageW (Fin 0) \<or> js_le pageH (Fin 0))"

text \<open>The degenerate-box test of line 755.\<close>

definition degenerate :: "hitbox \<Rightarrow> bool" where
  "degenerate b = (js_le (b_w b) (Fin 0) \<or> js_le (b_h b) (Fin 0))"

text \<open>The size filters of lines 758 to 764, in the order of the source.\<close>

definition oversized :: "hitbox \<Rightarrow> bool" where
  "oversized b =
     (if js_gt (b_h b) (lit (20 / 100)) then True
      else if js_gt (b_area b) (lit (25 / 100)) then True
      else if js_gt (b_w b) (lit (98 / 100)) \<and> js_gt (b_h b) (lit (50 / 100)) then True
      else if js_gt (b_w b) (lit (95 / 100)) \<and> js_gt (b_h b) (lit (95 / 100)) then True
      else js_gt (b_w b) (lit (999 / 1000)) \<or> js_gt (b_h b) (lit (999 / 1000)))"

text \<open>The argument of the one \<open>console.warn\<close> of the loop.\<close>

record warning =
  wn_uid :: string
  wn_bbox :: "jsnum \<times> jsnum \<times> jsnum \<times> jsnum"
  wn_w :: jsnum
  wn_h :: jsnum
  wn_area :: jsnum

text \<open>What the loop writes: \<open>boxByUidRef.current\<close>, \<open>nextHitBoxes\<close> and the console.\<close>

record build_state =
  boxes :: "string \<rightharpoonup> rect"
  nextHitBoxes :: "hitbox list"
  console :: "warning list"

text \<open>
  One iteration of \<open>for (const l of lines)\<close>. Each \<open>continue\<close> of the source leaves
  the three outputs as they are. \<open>production\<close> is \<open>process.env.NODE_ENV === "production"\<close>.
\<close>

definition processLine :: "bool \<Rightarrow> jsnum \<Rightarrow> jsnum \<Rightarrow> build_state \<Rightarrow> line_with_uid \<Rightarrow> build_state" where
  "processLine production pageW pageH st l =
     (if badData (bbox l) pageW pageH then st
      else let b = normalizeBox (uid l) (bbox l) pageW pageH in
        if degenerate b then st
        else if oversized b then st
        else st\<lparr>
          console := console st @
            (if \<not> production \<and> (js_gt (b_h b) (lit (8 / 100)) \<or> js_gt (b_area b) (lit (8 / 100)))
             then [\<lparr>wn_uid = uid l, wn_bbox = bbox l, wn_w = b_w b, wn_h = b_h b, wn_area = b_area b\<rparr>]
             else []),
          boxes := (boxes st)(uid l \<mapsto> \<lparr>r_x = b_x b, r_y = b_y b, r_w = b_w b, r_h = b_h b\<rparr>),
          nextHitBoxes := nextHitBoxes st @ [b]\<rparr>)"

text \<open>The whole loop over the lines of the page, followed by the sort by area.\<close>

definition buildHitBoxes :: "bool \<Rightarrow> page_obj \<Rightarrow> build_state" where
  "buildHitBoxes production pageObj =
     (let st = foldl (processLine production (width pageObj) (height pageObj))
                 \<lparr>boxes = Map.empty, nextHitBoxes = [], console = []\<rparr>
                 (getAllLinesForPage pageObj)
      in st\<lparr>nextHitBoxes := jsSort areaAfter (nextHitBoxes st)\<rparr>)"

text \<open>The transcript pane renders \<open>lines.map(...)\<close> over every line of the page.\<close>

definition transcriptLines :: "page_obj \<Rightarrow> line_with_uid list" where
  "transcriptLines pageObj = getAllLinesForPage pageObj"

section \<open>The highlight synchroniser\<close>

text \<open>\<open>activeSource\<close> is \<open>"left"\<close> (the rendered page), \<open>"right"\<close> (the transcript) or
  \<open>null\<close>.\<close>

datatype source = SrcLeft | SrcRight

text \<open>
  The animation-frame callback is created by the render whose handler scheduled it, so
  it reads \<open>hitBoxes\<close>, \<open>activeId\<close> and \<open>activeSource\<close> of that render.
\<close>

record frame_closure =
  fc_hitBoxes :: "hitbox list"
  fc_activeId :: "string option"
  fc_activeSource :: "source option"

text \<open>
  The state the pointer handlers of the rendered page read and write: React state
  (\<open>activeId\<close> to \<open>pageKey\<close>) and refs (\<open>boxByUid\<close> to \<open>hoverRaf\<close>). A pending
  animation frame is the closure it will run.
\<close>

record view_state =
  activeId :: "string option"
  activeSource :: "source option"
  activeBox :: "rect option"
  hitBoxes :: "hitbox list"
  collapseSuggestions :: bool
  collapsedUid :: "string \<rightharpoonup> bool"
  openSuggestUid :: "string option"
  doc :: "(string \<rightharpoonup> page_obj) option"
  pageKey :: string
  boxByUid :: "string \<rightharpoonup> rect"
  isDragging :: bool
  hoverPt :: "(jsnum \<times> jsnum) option"
  hoverRaf :: "frame_closure option"

text \<open>What a mouse event gives a handler: the pointer position and
  \<open>svg.getBoundingClientRect()\<close>.\<close>

record mouse_event =
  clientX :: jsnum
  clientY :: jsnum
  rectLeft :: jsnum
  rectTop :: jsnum
  rectWidth :: jsnum
  rectHeight :: jsnum

definition emptyRect :: "mouse_event \<Rightarrow> bool" where
  "emptyRect e = (js_le (rectWidth e) (Fin 0) \<or> js_le (rectHeight e) (Fin 0))"

definition pointU :: "mouse_event \<Rightarrow> jsnum" where
  "pointU e = js_div (js_sub (clientX e) (rectLeft e)) (rectWidth e)"

definition pointV :: "mouse_event \<Rightarrow> jsnum" where
  "pointV e = js_div (js_sub (clientY e) (rectTop e)) (rectHeight e)"

text \<open>\<open>!doc || !pageKey || !doc[pageKey]\<close>.\<close>

definition noTranscription :: "view_state \<Rightarrow> bool" where
  "noTranscription s =
     (case doc s of None \<Rightarrow> True | Some d \<Rightarrow> pageKey s = [] \<or> d (pageKey s) = None)"

text \<open>\<open>!!prev[uid]\<close> and \<open>collapsedUid[l.uid] ? ... : ...\<close>: a missing entry reads as
  expanded.\<close>

definition isCollapsed :: "(string \<rightharpoonup> bool) \<Rightarrow> string \<Rightarrow> bool" where
  "isCollapsed m u = (m u = Some True)"

text \<open>The updater passed to \<open>setCollapsedUid\<close> by the click handler.\<close>

definition toggleCollapsed :: "bool \<Rightarrow> string \<Rightarrow> (string \<rightharpoonup> bool) \<Rightarrow> (string \<rightharpoonup> bool)" where
  "toggleCollapsed wasSame u prev =
     (let cur = isCollapsed prev u in
      if \<not> wasSame then prev(u \<mapsto> False)
      else prev(u \<mapsto> (if cur then False else True)))"

definition onHitSvgClick :: "mouse_event \<Rightarrow> view_state \<Rightarrow> view_state" where
  "onHitSvgClick e s =
     (if isDragging s then s
      else if noTranscription s then s
      else if emptyRect e then s
      else (case pickBoxAt (hitBoxes s) (clamp01 (pointU e)) (clamp01 (pointV e)) of
              None \<Rightarrow> s
            | Some picked \<Rightarrow>
                (let u = b_uid picked; wasSame = (activeId s = Some u) in
                 s\<lparr>activeSource := Some SrcLeft,
                   activeId := Some u,
                   activeBox := boxByUid s u,
                   collapseSuggestions := False,
                   collapsedUid := toggleCollapsed wasSame u (collapsedUid s),
                   openSuggestUid := None\<rparr>)))"

text \<open>The handler proper: it records the point and schedules a frame unless one is
  pending.\<close>

definition onHitSvgMouseMove :: "mouse_event \<Rightarrow> view_state \<Rightarrow> view_state" where
  "onHitSvgMouseMove e s =
     (if emptyRect e then s
      else (let s1 = s\<lparr>hoverPt := Some (pointU e, pointV e)\<rparr> in
            if hoverRaf s1 \<noteq> None then s1
            else s1\<lparr>hoverRaf := Some \<lparr>fc_hitBoxes = hitBoxes s, fc_activeId = activeId s,
                                      fc_activeSource = activeSource s\<rparr>\<rparr>))"

text \<open>The callback given to \<open>requestAnimationFrame\<close>, run when the frame comes.\<close>

definition hoverFrame :: "view_state \<Rightarrow> view_state" where
  "hoverFrame s =
     (case hoverRaf s of
        None \<Rightarrow> s
      | Some c \<Rightarrow>
          (let s1 = s\<lparr>hoverRaf := None\<rparr> in
           case hoverPt s1 of
             None \<Rightarrow> s1
           | Some pt \<Rightarrow>
               (case pickBoxAt (fc_hitBoxes c) (clamp01 (fst pt)) (clamp01 (snd pt)) of
                  None \<Rightarrow> s1
                | Some picked \<Rightarrow>
                    if fc_activeId c = Some (b_uid picked) \<and> fc_activeSource c = Some SrcLeft then s1
                    else s1\<lparr>activeSource := Some SrcLeft,
                            activeId := Some (b_uid picked),
                            activeBox := boxByUid s1 (b_uid picked)\<rparr>)))"

definition onHitSvgMouseLeave :: "view_state \<Rightarrow> view_state" where
  "onHitSvgMouseLeave s =
     s\<lparr>hoverPt := None, hoverRaf := None, activeSource := None, activeId := None, activeBox := None\<rparr>"

text \<open>The handlers of a line of the transcript pane (\<open>onMouseEnter\<close>, \<open>onMouseLeave\<close>,
  \<open>onClick\<close> of the \<open>div\<close> rendered for each line).\<close>

definition lineMouseEnter :: "string \<Rightarrow> view_state \<Rightarrow> view_state" where
  "lineMouseEnter u s = s\<lparr>activeSource := Some SrcRight, activeId := Some u, activeBox := boxByUid s u\<rparr>"

definition lineMouseLeave :: "view_state \<Rightarrow> view_state" where
  "lineMouseLeave s = s\<lparr>activeSource := None, activeId := None, activeBox := None\<rparr>"

definition lineClick :: "string \<Rightarrow> view_state \<Rightarrow> view_state" where
  "lineClick u s = s\<lparr>activeSource := Some SrcRight, activeId := Some u, activeBox := boxByUid s u\<rparr>"

text \<open>\<open>setPageKey(k)\<close>, as the page selector does.\<close>

definition selectPage :: "string \<Rightarrow> view_state \<Rightarrow> view_state" where
  "selectPage k s = s\<lparr>pageKey := k\<rparr>"

text \<open>
  The page-render effect once the PDF page has been drawn (from \<open>const hitSvg\<close> on): it
  empties the box lookup and clears the highlight box; for a page without transcription
  it also empties the index and clears the active line; otherwise it rebuilds the lookup
  and the index. Without a document or a page key the effect returns at its first line.
\<close>

definition renderEffect :: "bool \<Rightarrow> view_state \<Rightarrow> view_state" where
  "renderEffect production s =
     (case doc s of
        None \<Rightarrow> s
      | Some d \<Rightarrow>
          if pageKey s = [] then s
          else (case d (pageKey s) of
                  None \<Rightarrow> s\<lparr>boxByUid := Map.empty, activeBox := None, hitBoxes := [], activeId := None\<rparr>
                | Some pageObj \<Rightarrow>
                    (let st = buildHitBoxes production pageObj in
                     s\<lparr>boxByUid := boxes st, activeBox := None, hitBoxes := nextHitBoxes st\<rparr>)))"

text \<open>
  The events of the viewer that write the highlight state, the index, the box lookup,
  the page key or the hover refs: the four of the rendered page, the three of a
  transcript line, the choice of a page and the completed render of a page.
\<close>

datatype viewer_event =
    PointerMove mouse_event | AnimationFrame | Click mouse_event | PointerLeave
  | LineEnter string | LineLeave | LineClick string
  | SelectPage string | PageRendered

fun viewerStep :: "bool \<Rightarrow> viewer_event \<Rightarrow> view_state \<Rightarrow> view_state" where
  "viewerStep production (PointerMove e) s = onHitSvgMouseMove e s"
| "viewerStep production AnimationFrame s = hoverFrame s"
| "viewerStep production (Click e) s = onHitSvgClick e s"
| "viewerStep production PointerLeave s = onHitSvgMouseLeave s"
| "viewerStep production (LineEnter u) s = lineMouseEnter u s"
| "viewerStep production LineLeave s = lineMouseLeave s"
| "viewerStep production (LineClick u) s = lineClick u s"
| "viewerStep production (SelectPage k) s = selectPage k s"
| "viewerStep production PageRendered s = renderEffect production s"

text \<open>A sequence of events, the first of the list first.\<close>

definition run :: "bool \<Rightarrow> viewer_event list \<Rightarrow> view_state \<Rightarrow> view_state" where
  "run production evs s = foldl (\<lambda>t ev. viewerStep production ev t) s evs"

text \<open>The highlight state: the active line, where it was set from, and its box.\<close>

definition highlight :: "view_state \<Rightarrow> string option \<times> source option \<times> rect option" where
  "highlight s = (activeId s, activeSource s, activeBox s)"

section \<open>Objects as ordered dictionaries\<close>

text \<open>
  Strings are lists of 8-bit characters. An object used as a dictionary is the list of
  its entries in creation order, with distinct keys. \<open>Object.keys\<close> and
  \<open>Object.entries\<close> list the keys that are array indices first, in ascending numeric
  order, and then the other keys in creation order. Property names that every object
  inherits are not modelled.
\<close>

definition isDigit :: "char \<Rightarrow> bool" where
  "isDigit c = (48 \<le> (of_char c :: nat) \<and> (of_char c :: nat) \<le> 57)"

definition digitVal :: "char \<Rightarrow> nat" where
  "digitVal c = of_char c - 48"

definition parseDigits :: "string \<Rightarrow> nat" where
  "parseDigits ds = foldl (\<lambda>n c. 10 * n + digitVal c) 0 ds"

definition isArrayIndex :: "string \<Rightarrow> bool" where
  "isArrayIndex k =
     (k \<noteq> [] \<and> list_all isDigit k \<and> (length k = 1 \<or> hd k \<noteq> CHR ''0'') \<and> parseDigits k < 4294967295)"

definition objectEntries :: "(string \<times> 'a) list \<Rightarrow> (string \<times> 'a) list" where
  "objectEntries al =
     sort_key (\<lambda>kv. parseDigits (fst kv)) (filter (\<lambda>kv. isArrayIndex (fst kv)) al)
     @ filter (\<lambda>kv. \<not> isArrayIndex (fst kv)) al"

section \<open>Page keys\<close>

definition endsWith :: "string \<Rightarrow> string \<Rightarrow> bool" where
  "endsWith s t = (length t \<le> length s \<and> drop (length s - length t) s = t)"

text \<open>
  \<open>pageKeyToNumber\<close>: the match of \<open>/_page_(\d+)$/\<close> and \<open>parseInt\<close> of its group. The
  group is the longest run of digits that ends the key, since the character before it
  is an underscore. Page numbers are natural numbers here; \<open>parseInt\<close> returns them
  exactly up to \<open>2^53\<close>.
\<close>

definition pageKeyToNumber :: "string \<Rightarrow> nat option" where
  "pageKeyToNumber k =
     (let d = rev (takeWhile isDigit (rev k));
          p = rev (dropWhile isDigit (rev k))
      in if d \<noteq> [] \<and> endsWith p ''_page_'' then Some (parseDigits d) else None)"

text \<open>\<open>pageKeyToNumber(k) ?? 0\<close>.\<close>

definition numberOrZero :: "string \<Rightarrow> int" where
  "numberOrZero k = (case pageKeyToNumber k of None \<Rightarrow> 0 | Some n \<Rightarrow> int n)"

text \<open>The sort of both page-key lists, with the comparator
  \<open>(a, b) => (pageKeyToNumber(a) ?? 0) - (pageKeyToNumber(b) ?? 0)\<close>.\<close>

definition sortPageKeys :: "string list \<Rightarrow> string list" where
  "sortPageKeys ks = jsSort (\<lambda>a b. 0 < numberOrZero a - numberOrZero b) ks"

text \<open>\<open>docKeyByNum\<close>: a later key with the same number replaces an earlier one.\<close>

definition docKeyByNum :: "string list \<Rightarrow> (nat \<rightharpoonup> string)" where
  "docKeyByNum ks =
     foldl (\<lambda>m k. case pageKeyToNumber k of None \<Rightarrow> m | Some n \<Rightarrow> m(n \<mapsto> k)) Map.empty ks"

text \<open>
  The memo \<open>pageKeys\<close>. \<open>d\<close> is the document (\<open>None\<close> while it loads) and \<open>numPages\<close>
  is \<open>pdf?.numPages\<close> (\<open>None\<close> while the PDF loads).
\<close>

definition pageKeys :: "(string \<times> page_obj) list option \<Rightarrow> nat option \<Rightarrow> string list" where
  "pageKeys d numPages =
     (case d of
        None \<Rightarrow> []
      | Some entries \<Rightarrow>
          (let ks = map fst (objectEntries entries) in
           case numPages of
             Some (Suc n) \<Rightarrow>
               map (\<lambda>i. case docKeyByNum ks i of Some k \<Rightarrow> k | None \<Rightarrow> ''pdf_only_page_'' @ showNat i)
                   [1 ..< Suc (Suc n)]
           | _ \<Rightarrow> sortPageKeys ks))"

section \<open>Suggestions and their ranking\<close>

record suggestion_row =
  s_id :: string
  s_document_id :: string
  s_page_key :: string
  s_uid :: string
  s_suggested_text :: string
  s_comment :: "string option"
  s_user_id :: string
  s_created_at :: string
  s_vote_count :: "int option"
  s_author_username :: "string option"

datatype sort_mode = Top | Newest

text \<open>\<open>a.vote_count ?? 0\<close>.\<close>

definition votes :: "suggestion_row \<Rightarrow> int" where
  "votes a = (case s_vote_count a of None \<Rightarrow> 0 | Some n \<Rightarrow> n)"

text \<open>
  The two comparators of \<open>getSortedSuggestions\<close>. \<open>getTime\<close> stands for
  \<open>new Date(created_at).getTime()\<close>, the runtime's reading of a valid timestamp in
  milliseconds. Vote counts and milliseconds are integers that the subtraction handles
  exactly.
\<close>

definition newestCmp :: "(string \<Rightarrow> int) \<Rightarrow> suggestion_row \<Rightarrow> suggestion_row \<Rightarrow> int" where
  "newestCmp getTime a b = getTime (s_created_at b) - getTime (s_created_at a)"

definition topCmp :: "(string \<Rightarrow> int) \<Rightarrow> suggestion_row \<Rightarrow> suggestion_row \<Rightarrow> int" where
  "topCmp getTime a b =
     (let va = votes a; vb = votes b in
      if vb \<noteq> va then vb - va
      else getTime (s_created_at b) - getTime (s_created_at a))"

definition getSortedSuggestions ::
  "(string \<Rightarrow> int) \<Rightarrow> (string \<rightharpoonup> suggestion_row list) \<Rightarrow> (string \<rightharpoonup> sort_mode) \<Rightarrow> string
     \<Rightarrow> suggestion_row list" where
  "getSortedSuggestions getTime suggestionsByUid sortModeByUid u =
     (let arr = (case suggestionsByUid u of None \<Rightarrow> [] | Some xs \<Rightarrow> xs);
          mode = (case sortModeByUid u of None \<Rightarrow> Top | Some m \<Rightarrow> m)
      in if mode = Newest then jsSort (\<lambda>a b. 0 < newestCmp getTime a b) arr
         else jsSort (\<lambda>a b. 0 < topCmp getTime a b) arr)"

section \<open>The leaderboard\<close>

text \<open>A row of \<open>suggestion_votes\<close> as selected: \<open>vote\<close> and the joined suggestion with
  \<open>user_id\<close> and \<open>author_username\<close>; a \<open>null\<close> is \<open>None\<close>.\<close>

record voted_suggestion =
  vs_user_id :: "string option"
  vs_author_username :: "string option"

record vote_row =
  vr_vote :: "int option"
  vr_suggestion :: "voted_suggestion option"

record total =
  t_upvotes :: int
  t_username :: string

record leaderboard_row =
  lb_user_id :: string
  lb_upvotes :: int
  lb_username :: string

record profile_row =
  p_id :: "string option"
  p_username :: "string option"

text \<open>\<open>String.prototype.trim\<close> on the white space of the 8-bit range.\<close>

definition isSpace :: "char \<Rightarrow> bool" where
  "isSpace c = ((of_char c :: nat) \<in> {9, 10, 11, 12, 13, 32, 160})"

definition trim :: "string \<Rightarrow> string" where
  "trim s = rev (dropWhile isSpace (rev (dropWhile isSpace s)))"

text \<open>\<open>String(v ?? "")\<close> of a string or \<open>null\<close>.\<close>

definition orEmpty :: "string option \<Rightarrow> string" where
  "orEmpty v = (case v of None \<Rightarrow> [] | Some t \<Rightarrow> t)"

text \<open>\<open>a || b\<close> on strings: the empty string is the only falsy one.\<close>

definition orElse :: "string \<Rightarrow> string \<Rightarrow> string" where
  "orElse a b = (if a \<noteq> [] then a else b)"

text \<open>\<open>String(sug?.user_id ?? "")\<close> and \<open>String(sug?.author_username ?? "").trim()\<close>.\<close>

definition authorOf :: "vote_row \<Rightarrow> string" where
  "authorOf row = (case vr_suggestion row of None \<Rightarrow> [] | Some sug \<Rightarrow> orEmpty (vs_user_id sug))"

definition snapOf :: "vote_row \<Rightarrow> string" where
  "snapOf row =
     trim (case vr_suggestion row of None \<Rightarrow> [] | Some sug \<Rightarrow> orEmpty (vs_author_username sug))"

text \<open>\<open>Number(row?.vote ?? 0)\<close>.\<close>

definition voteOf :: "vote_row \<Rightarrow> int" where
  "voteOf row = (case vr_vote row of None \<Rightarrow> 0 | Some n \<Rightarrow> n)"

definition alter :: "string \<Rightarrow> ('a \<Rightarrow> 'a) \<Rightarrow> (string \<times> 'a) list \<Rightarrow> (string \<times> 'a) list" where
  "alter k f al = map (\<lambda>kv. if fst kv = k then (fst kv, f (snd kv)) else kv) al"

text \<open>One iteration of the loop over the vote rows, on the object \<open>totals\<close>.\<close>

definition tally :: "(string \<times> total) list \<Rightarrow> vote_row \<Rightarrow> (string \<times> total) list" where
  "tally totals row =
     (if voteOf row \<noteq> 1 then totals
      else let u = authorOf row in
        if u = [] then totals
        else let snap = snapOf row;
                 t1 = (if map_of totals u = None
                       then totals @ [(u, \<lparr>t_upvotes = 0, t_username = snap\<rparr>)] else totals);
                 t2 = alter u (\<lambda>t. t\<lparr>t_upvotes := t_upvotes t + 1\<rparr>) t1
             in alter u (\<lambda>t. if t_username t = [] \<and> snap \<noteq> [] then t\<lparr>t_username := snap\<rparr> else t) t2)"

text \<open>\<open>Object.entries(totals).map(...).sort((a, b) => b.upvotes - a.upvotes).slice(0, 10)\<close>.\<close>

definition leaderboardTop :: "vote_row list \<Rightarrow> leaderboard_row list" where
  "leaderboardTop rows =
     take 10 (jsSort (\<lambda>a b. 0 < lb_upvotes b - lb_upvotes a)
       (map (\<lambda>kv. \<lparr>lb_user_id = fst kv, lb_upvotes = t_upvotes (snd kv),
                    lb_username = orElse (t_username (snd kv)) []\<rparr>)
            (objectEntries (foldl tally [] rows))))"

text \<open>\<open>`user:${r.user_id.slice(0, 8)}`\<close>.\<close>

definition fallbackName :: "leaderboard_row \<Rightarrow> string" where
  "fallbackName r = ''user:'' @ take 8 (lb_user_id r)"

text \<open>The dictionary \<open>byId\<close> built from the profile rows.\<close>

definition byId :: "profile_row list \<Rightarrow> (string \<rightharpoonup> string)" where
  "byId profs =
     foldl (\<lambda>m p. let i = orEmpty (p_id p); uname = trim (orEmpty (p_username p))
                   in if i \<noteq> [] \<and> uname \<noteq> [] then m(i \<mapsto> uname) else m)
           Map.empty profs"

definition enrich :: "(string \<rightharpoonup> string) \<Rightarrow> leaderboard_row \<Rightarrow> leaderboard_row" where
  "enrich m r =
     r\<lparr>lb_username := orElse (orEmpty (m (lb_user_id r))) (orElse (lb_username r) (fallbackName r))\<rparr>"

definition finalName :: "leaderboard_row \<Rightarrow> leaderboard_row" where
  "finalName r = r\<lparr>lb_username := orElse (lb_username r) (fallbackName r)\<rparr>"

text \<open>
  \<open>loadLeaderboard\<close>, returning the rows given to \<open>setLeaderboardRows\<close>. \<open>voteRows\<close> is
  the result of the query on the votes (\<open>None\<close> when it reports an error, which the
  \<open>catch\<close> turns into the empty list). \<open>profiles ids\<close> is the result of the query on the
  profiles (\<open>None\<close> when it reports an error or no data).
\<close>

definition loadLeaderboard ::
  "vote_row list option \<Rightarrow> (string list \<Rightarrow> profile_row list option) \<Rightarrow> leaderboard_row list" where
  "loadLeaderboard voteRows profiles =
     (case voteRows of
        None \<Rightarrow> []
      | Some rows \<Rightarrow>
          (let arr = leaderboardTop rows;
               ids = map lb_user_id arr;
               arr1 = (if ids \<noteq> [] then
                         (case profiles ids of None \<Rightarrow> arr | Some profs \<Rightarrow> map (enrich (byId profs)) arr)
                       else arr)
           in map finalName arr1))"

section \<open>What the leaderboard is to show\<close>

text \<open>The upvotes an author received: the vote rows of value \<open>1\<close> on a suggestion of
  that author, in the order of the query result.\<close>

definition upvoteRowsOf :: "string \<Rightarrow> vote_row list \<Rightarrow> vote_row list" where
  "upvoteRowsOf u rows = filter (\<lambda>r. voteOf r = 1 \<and> authorOf r = u) rows"

definition firstNonEmpty :: "string list \<Rightarrow> string" where
  "firstNonEmpty ss = (case filter (\<lambda>t. t \<noteq> []) ss of [] \<Rightarrow> [] | t # _ \<Rightarrow> t)"

text \<open>The username snapshot of an author: the first non-empty trimmed
  \<open>author_username\<close> on an upvoted suggestion, the empty string if there is none.\<close>

definition snapshotFor :: "string \<Rightarrow> vote_row list \<Rightarrow> string" where
  "snapshotFor u rows = firstNonEmpty (map snapOf (upvoteRowsOf u rows))"

text \<open>What \<open>totals\<close> is to hold for an author once the loop is over.\<close>

definition totalFor :: "string \<Rightarrow> vote_row list \<Rightarrow> total option" where
  "totalFor u rows =
     (if u \<noteq> [] \<and> upvoteRowsOf u rows \<noteq> []
      then Some \<lparr>t_upvotes = int (length (upvoteRowsOf u rows)), t_username = snapshotFor u rows\<rparr>
      else None)"

text \<open>The live profile username of an author: the trimmed username of the last profile
  row with that id whose trimmed username is not empty.\<close>

definition liveName :: "profile_row list \<Rightarrow> string \<Rightarrow> string option" where
  "liveName profs u =
     (case filter (\<lambda>p. orEmpty (p_id p) = u \<and> trim (orEmpty (p_username p)) \<noteq> []) profs of
        [] \<Rightarrow> None
      | ps \<Rightarrow> Some (trim (orEmpty (p_username (last ps)))))"

section \<open>What the index is to hold\<close>

text \<open>A line is accepted when none of the checks of the loop rejects it.\<close>

definition accepted :: "jsnum \<Rightarrow> jsnum \<Rightarrow> line_with_uid \<Rightarrow> bool" where
  "accepted pageW pageH l =
     (\<not> badData (bbox l) pageW pageH
      \<and> \<not> degenerate (normalizeBox (uid l) (bbox l) pageW pageH)
      \<and> \<not> oversized (normalizeBox (uid l) (bbox l) pageW pageH))"

text \<open>The warnings an accepted line adds to the console.\<close>

definition warningsFor :: "bool \<Rightarrow> jsnum \<Rightarrow> jsnum \<Rightarrow> line_with_uid \<Rightarrow> warning list" where
  "warningsFor production pageW pageH l =
     (let b = normalizeBox (uid l) (bbox l) pageW pageH in
      if \<not> production \<and> (js_gt (b_h b) (lit (8 / 100)) \<or> js_gt (b_area b) (lit (8 / 100)))
      then [\<lparr>wn_uid = uid l, wn_bbox = bbox l, wn_w = b_w b, wn_h = b_h b, wn_area = b_area b\<rparr>]
      else [])"

text \<open>The area of an index entry as a rational, for a finite area.\<close>

definition areaVal :: "hitbox \<Rightarrow> rat" where
  "areaVal b = (case b_area b of Fin q \<Rightarrow> q | _ \<Rightarrow> 0)"

section \<open>Example inputs\<close>

text \<open>Two overlapping boxes of one page; the smaller lies inside the larger.\<close>

definition smallBox :: hitbox where
  "smallBox = \<lparr>b_uid = ''2-5'', b_x = Fin (1 / 4), b_y = Fin (1 / 4), b_w = Fin (1 / 4),
                b_h = Fin (1 / 8), b_area = Fin (1 / 32)\<rparr>"

definition largeBox :: hitbox where
  "largeBox = \<lparr>b_uid = ''2-4'', b_x = Fin 0, b_y = Fin (1 / 4), b_w = Fin (1 / 2),
                b_h = Fin (3 / 16), b_area = Fin (3 / 32)\<rparr>"

text \<open>A third box, inside both.\<close>

definition tinyBox :: hitbox where
  "tinyBox = \<lparr>b_uid = ''2-6'', b_x = Fin (5 / 16), b_y = Fin (1 / 4), b_w = Fin (1 / 8),
               b_h = Fin (1 / 8), b_area = Fin (1 / 64)\<rparr>"

definition rectOf :: "hitbox \<Rightarrow> rect" where
  "rectOf b = \<lparr>r_x = b_x b, r_y = b_y b, r_w = b_w b, r_h = b_h b\<rparr>"

text \<open>A page of one paragraph with one line, \<open>1000\<close> by \<open>2000\<close> pixels.\<close>

definition pageWith :: "jsnum \<times> jsnum \<times> jsnum \<times> jsnum \<Rightarrow> page_obj" where
  "pageWith bb =
     \<lparr>width = Fin 1000, height = Fin 2000,
      paragraphs = [\<lparr>par_lines = [\<lparr>line_id = ''l0'', transcription = ''text'', bbox = bb\<rparr>]\<rparr>]\<rparr>"

text \<open>A viewer showing that page with both boxes indexed, nothing highlighted, every
  suggestion list expanded.\<close>

definition idleState :: view_state where
  "idleState =
     \<lparr>activeId = None, activeSource = None, activeBox = None,
      hitBoxes = [smallBox, largeBox],
      collapseSuggestions = True, collapsedUid = Map.empty, openSuggestUid = None,
      doc = Some [''doc_page_1'' \<mapsto> pageWith (Fin 100, Fin 50, Fin 300, Fin 90)],
      pageKey = ''doc_page_1'',
      boxByUid = [''2-5'' \<mapsto> rectOf smallBox, ''2-4'' \<mapsto> rectOf largeBox],
      isDragging = False, hoverPt = None, hoverRaf = None\<rparr>"

text \<open>The same viewer with line \<open>2-5\<close> active and its suggestions collapsed.\<close>

definition collapsedState :: view_state where
  "collapsedState =
     idleState\<lparr>activeId := Some ''2-5'', activeSource := Some SrcLeft,
               activeBox := Some (rectOf smallBox), collapsedUid := [''2-5'' \<mapsto> True]\<rparr>"

text \<open>A pointer at \<open>(3/8, 5/16)\<close> of the page, inside both boxes, and one at
  \<open>(15/16, 15/16)\<close>, inside neither.\<close>

definition pointerInside :: mouse_event where
  "pointerInside = \<lparr>clientX = Fin 150, clientY = Fin 125, rectLeft = Fin 0, rectTop = Fin 0,
                     rectWidth = Fin 400, rectHeight = Fin 400\<rparr>"

definition pointerOutside :: mouse_event where
  "pointerOutside = \<lparr>clientX = Fin 375, clientY = Fin 375, rectLeft = Fin 0, rectTop = Fin 0,
                      rectWidth = Fin 400, rectHeight = Fin 400\<rparr>"

text \<open>The viewer after a pointer move inside both boxes, the choice of a page without
  transcription and the render of that page, the frame of the move still pending.\<close>

definition staleState :: view_state where
  "staleState =
     idleState\<lparr>hitBoxes := [], pageKey := ''doc_page_2'', boxByUid := Map.empty,
               hoverPt := Some (Fin (3 / 8), Fin (5 / 16)),
               hoverRaf := Some \<lparr>fc_hitBoxes = [smallBox, largeBox], fc_activeId = None,
                                 fc_activeSource = None\<rparr>\<rparr>"

text \<open>The reading of an \<open>HH:MM\<close> time of one day, in milliseconds.\<close>

definition clockTime :: "string \<Rightarrow> int" where
  "clockTime t = (int (parseDigits (take 2 t)) * 60 + int (parseDigits (drop 3 t))) * 60000"

definition exampleSuggestion :: "string \<Rightarrow> int \<Rightarrow> string \<Rightarrow> suggestion_row" where
  "exampleSuggestion i n t =
     \<lparr>s_id = i, s_document_id = ''d'', s_page_key = ''doc_page_1'', s_uid = ''2-5'',
      s_suggested_text = i, s_comment = None, s_user_id = ''u'', s_created_at = t,
      s_vote_count = Some n, s_author_username = None\<rparr>"

definition threeSuggestions :: "string \<rightharpoonup> suggestion_row list" where
  "threeSuggestions =
     [''2-5'' \<mapsto> [exampleSuggestion ''A'' 3 ''10:00'', exampleSuggestion ''B'' 3 ''10:05'',
                     exampleSuggestion ''C'' 1 ''10:10'']]"

text \<open>A document of two pages, one numbered and one not, in the order of its JSON text.\<close>

definition twoKeyDoc :: "(string \<times> page_obj) list" where
  "twoKeyDoc = [(''doc_page_1'', pageWith (Fin 100, Fin 50, Fin 300, Fin 90)),
                (''cover'', pageWith (Fin 0, Fin 0, Fin 999, Fin 1999))]"

text \<open>Three upvotes for the author \<open>X\<close>, on two of their suggestions (one submitted
  without a username), and one vote of another value for \<open>Y\<close>.\<close>

definition voteFor :: "int \<Rightarrow> string \<Rightarrow> string \<Rightarrow> vote_row" where
  "voteFor n u name =
     \<lparr>vr_vote = Some n, vr_suggestion = Some \<lparr>vs_user_id = Some u, vs_author_username = Some name\<rparr>\<rparr>"

definition exampleVotes :: "vote_row list" where
  "exampleVotes = [voteFor 1 ''X'' [], voteFor 1 ''X'' '' xavier '', voteFor 0 ''Y'' ''yves'',
                   voteFor 1 ''X'' ''xav'']"

text \<open>A profile store that fails, and one that knows \<open>X\<close>.\<close>

definition failingProfiles :: "string list \<Rightarrow> profile_row list option" where
  "failingProfiles ids = None"

definition liveProfiles :: "string list \<Rightarrow> profile_row list option" where
  "liveProfiles ids = Some [\<lparr>p_id = Some ''X'', p_username = Some ''Xavier''\<rparr>]"

text \<open>One upvote for each of eleven authors.\<close>

definition elevenVotes :: "vote_row list" where
  "elevenVotes = map (\<lambda>u. voteFor 1 u u)
     [''a'', ''b'', ''c'', ''d'', ''e'', ''f'', ''g'', ''h'', ''i'', ''j'', ''k'']"

text \<open>The line of \<open>pageWith bb\<close> as the page-render effect sees it.\<close>

definition lineWith :: "jsnum \<times> jsnum \<times> jsnum \<times> jsnum \<Rightarrow> line_with_uid" where
  "lineWith bb = withUid 0 0 \<lparr>line_id = ''l0'', transcription = ''text'', bbox = bb\<rparr>"

text \<open>The two boxes of the examples: a text line, and a box of nearly the whole page.\<close>

definition lineBox :: "jsnum \<times> jsnum \<times> jsnum \<times> jsnum" where
  "lineBox = (Fin 100, Fin 50, Fin 300, Fin 90)"

definition pageBox :: "jsnum \<times> jsnum \<times> jsnum \<times> jsnum" where
  "pageBox = (Fin 0, Fin 0, Fin 999, Fin 1999)"

text \<open>A box that reaches the right edge of a \<open>1024\<close> by \<open>1024\<close> page; its left edge is
  the binary64 value \<open>128.00000000000003\<close>.\<close>

definition edgeBox :: "jsnum \<times> jsnum \<times> jsnum \<times> jsnum" where
  "edgeBox = (Fin (4503599627370497 / 35184372088832), Fin 0, Fin 1024, Fin 64)"

section \<open>Rounding\<close>

lemma bitlen_powi_bounds:
  assumes "0 < (a::int)"
  shows "(2::rat) powi (bitlen a - 1) \<le> of_int a" "of_int a < (2::rat) powi (bitlen a)"
proof -
  from bitlen_bounds [OF assms] have lo: "2 ^ nat (bitlen a - 1) \<le> a" and hi: "a < 2 ^ nat (bitlen a)"
    by auto
  have ge1: "1 \<le> bitlen a" using assms bitlen_eq_zero_iff [of a] bitlen_nonneg [of a] by linarith
  have "(of_int (2 ^ nat (bitlen a - 1)) :: rat) \<le> of_int a" using lo by (simp only: of_int_le_iff)
  then show "(2::rat) powi (bitlen a - 1) \<le> of_int a"
    using ge1 by (simp add: power_int_def)
  have "(of_int a :: rat) < of_int (2 ^ nat (bitlen a))" using hi by (simp only: of_int_less_iff)
  then show "of_int a < (2::rat) powi (bitlen a)"
    using ge1 by (simp add: power_int_def)
qed

lemma ilog2_bounds:
  assumes "q \<noteq> 0"
  shows "2 powi (ilog2 q) \<le> \<bar>q\<bar>" "\<bar>q\<bar> < 2 powi (ilog2 q + 1)"
proof -
  obtain a b where ab: "quotient_of \<bar>q\<bar> = (a, b)" by (cases "quotient_of \<bar>q\<bar>")
  then have b: "0 < b" and q: "\<bar>q\<bar> = of_int a / of_int b"
    using quotient_of_denom_pos [of "\<bar>q\<bar>" a b] quotient_of_div [of "\<bar>q\<bar>" a b] by auto
  have a: "0 < a"
  proof -
    have "0 < \<bar>q\<bar>" using assms by simp
    then have "0 < (of_int a :: rat) / of_int b" using q by simp
    then show ?thesis using b by (simp add: zero_less_divide_iff)
  qed
  define k where "k = bitlen a - bitlen b"
  note A = bitlen_powi_bounds [OF a] and B = bitlen_powi_bounds [OF b]
  have bpos: "(0::rat) < of_int b" using b by simp
  have up: "\<bar>q\<bar> < 2 powi (k + 1)"
  proof -
    have "of_int a / of_int b < (2::rat) powi (bitlen a) / of_int b"
      using A(2) bpos by (simp add: divide_strict_right_mono)
    also have "\<dots> \<le> 2 powi (bitlen a) / 2 powi (bitlen b - 1)"
      using B(1) by (intro divide_left_mono) (auto intro: mult_pos_pos bpos)
    also have "\<dots> = 2 powi (k + 1)"
      unfolding k_def by (simp add: power_int_diff [symmetric] algebra_simps)
    finally show ?thesis using q by simp
  qed
  have lo: "2 powi (k - 1) < \<bar>q\<bar>"
  proof -
    have "(2::rat) powi (k - 1) = 2 powi (bitlen a - 1) / 2 powi (bitlen b)"
      unfolding k_def by (simp add: power_int_diff [symmetric] algebra_simps)
    also have "\<dots> \<le> of_int a / 2 powi (bitlen b)"
      using A(1) by (simp add: divide_right_mono)
    also have "\<dots> < of_int a / of_int b"
      using B(2) a bpos by (intro divide_strict_left_mono) (auto intro: mult_pos_pos)
    finally show ?thesis using q by simp
  qed
  have e: "ilog2 q = (if 2 powi k \<le> \<bar>q\<bar> then k else k - 1)"
    by (simp add: ilog2_def ab k_def Let_def)
  show "2 powi (ilog2 q) \<le> \<bar>q\<bar>" using lo by (auto simp: e)
  show "\<bar>q\<bar> < 2 powi (ilog2 q + 1)" using up by (auto simp: e not_le)
qed

lemma powi2_mono: "m \<le> n \<Longrightarrow> (2::rat) powi m \<le> 2 powi n"
  by (rule power_int_increasing) auto

lemma powi2_less_imp: "(2::rat) powi m < 2 powi n \<Longrightarrow> m < n"
  using powi2_mono [of n m] by (cases "m < n") auto

lemma ilog2_unique:
  assumes "2 powi e \<le> \<bar>q\<bar>" "\<bar>q\<bar> < 2 powi (e + 1)"
  shows "ilog2 q = e"
proof -
  have "(0::rat) < 2 powi e" by simp
  with assms(1) have "0 < \<bar>q\<bar>" by linarith
  then have nz: "q \<noteq> 0" by simp
  note I = ilog2_bounds [OF nz]
  have "(2::rat) powi e < 2 powi (ilog2 q + 1)" using assms(1) I(2) by linarith
  then have "e < ilog2 q + 1" by (rule powi2_less_imp)
  moreover have "(2::rat) powi (ilog2 q) < 2 powi (e + 1)" using assms(2) I(1) by linarith
  then have "ilog2 q < e + 1" by (rule powi2_less_imp)
  ultimately show ?thesis by simp
qed

lemma rnd_eval:
  assumes "2 powi e \<le> \<bar>q\<bar>" "\<bar>q\<bar> < 2 powi (e + 1)" "u = 2 powi (max e (- 1022) - 52)"
  shows "rnd q = of_int (round_even (q / u)) * u"
proof -
  have "(0::rat) < 2 powi e" by simp
  with assms(1) have "0 < \<bar>q\<bar>" by linarith
  then have nz: "q \<noteq> 0" by simp
  show ?thesis using nz by (simp add: rnd_def quantum_def ilog2_unique [OF assms(1,2)] assms(3))
qed


lemma round_even_near:
  assumes "\<bar>r - of_int n\<bar> < 1 / 2"
  shows "round_even r = n"
proof -
  from assms have lo: "of_int n - 1 / 2 < r" and hi: "r < of_int n + 1 / 2" by linarith+
  show ?thesis
  proof (cases "of_int n \<le> r")
    case True
    have "\<lfloor>r\<rfloor> = n" using True hi by (intro floor_unique) auto
    then show ?thesis using hi by (simp add: round_even_def Let_def)
  next
    case False
    have "\<lfloor>r\<rfloor> = n - 1" using False lo by (intro floor_unique) auto
    then show ?thesis using lo by (auto simp: round_even_def Let_def)
  qed
qed

lemma round_even_of_int [simp]: "round_even (of_int n) = n"
  by (rule round_even_near) simp

lemma round_even_error: "\<bar>of_int (round_even r) - r\<bar> \<le> 1 / 2"
proof -
  have "of_int \<lfloor>r\<rfloor> \<le> r" "r < of_int \<lfloor>r\<rfloor> + 1" by linarith+
  then show ?thesis unfolding round_even_def Let_def by (auto simp: abs_le_iff)
qed

lemma round_even_mono:
  assumes "r \<le> s"
  shows "round_even r \<le> round_even s"
proof (cases "\<lfloor>r\<rfloor> = \<lfloor>s\<rfloor>")
  case True
  with assms show ?thesis by (auto simp: round_even_def Let_def)
next
  case False
  with assms have "\<lfloor>r\<rfloor> < \<lfloor>s\<rfloor>" using floor_mono [OF assms] by linarith
  moreover have "round_even r \<le> \<lfloor>r\<rfloor> + 1" by (simp add: round_even_def Let_def)
  moreover have "\<lfloor>s\<rfloor> \<le> round_even s" by (simp add: round_even_def Let_def)
  ultimately show ?thesis by linarith
qed

lemma round_even_neg: "round_even (- r) = - round_even r"
proof (cases "r = of_int \<lfloor>r\<rfloor>")
  case True
  then obtain n where "r = of_int n" by blast
  then have "- r = of_int (- n)" by simp
  then show ?thesis unfolding \<open>r = of_int n\<close> by (simp only: round_even_of_int)
next
  case False
  define f where "f = \<lfloor>r\<rfloor>"
  have fr: "of_int f < r" "r < of_int f + 1"
    using False floor_correct [of r] by (auto simp: f_def less_le)
  have nf: "\<lfloor>- r\<rfloor> = - f - 1" using fr by (intro floor_unique) auto
  have "even (- f - 1) \<longleftrightarrow> odd f" by simp
  then show ?thesis
    unfolding round_even_def Let_def nf f_def [symmetric]
    by (auto simp: algebra_simps)
qed


lemma rnd_near:
  assumes "2 powi e \<le> \<bar>q\<bar>" "\<bar>q\<bar> < 2 powi (e + 1)" "u = 2 powi (max e (- 1022) - 52)"
    and "\<bar>q / u - of_int n\<bar> < 1 / 2"
  shows "rnd q = of_int n * u"
  by (simp add: rnd_eval [OF assms(1,2,3)] round_even_near [OF assms(4)])


lemma powi2_int: "0 \<le> j \<Longrightarrow> (2::rat) powi j = of_int (2 ^ nat j)"
  by (simp add: power_int_def)

lemma powi2_split: "(2::rat) powi (a + b) = 2 powi a * 2 powi b"
  by (rule power_int_add) simp

lemma powi2_div: "(2::rat) powi a / 2 powi b = 2 powi (a - b)"
  by (simp add: power_int_diff)

lemma quantum_pos [simp]: "0 < quantum q"
  by (simp add: quantum_def)

lemma quantum_nz [simp]: "quantum q \<noteq> 0"
  by (simp add: quantum_def)

lemma quantum_nonneg [simp]: "0 \<le> quantum q"
  by (simp add: quantum_def)

lemma quantum_binade:
  assumes "2 powi e \<le> \<bar>q\<bar>" "\<bar>q\<bar> < 2 powi (e + 1)"
  shows "quantum q = 2 powi (max e (- 1022) - 52)"
  by (simp add: quantum_def ilog2_unique [OF assms])

lemma ilog2_neg [simp]: "ilog2 (- q) = ilog2 q"
  by (simp add: ilog2_def)

lemma rnd_neg: "rnd (- q) = - rnd q"
  by (simp add: rnd_def quantum_def round_even_neg)

lemma rnd_zero [simp]: "rnd 0 = 0"
  by (simp add: rnd_def)

lemma rnd_nonneg: "0 \<le> q \<Longrightarrow> 0 \<le> rnd q"
proof -
  assume q: "0 \<le> q"
  have "0 \<le> q / quantum q" using q by (simp add: less_imp_le)
  then have "round_even 0 \<le> round_even (q / quantum q)" by (rule round_even_mono)
  moreover have "round_even 0 = 0" using round_even_of_int [of 0] by simp
  ultimately show ?thesis by (simp add: rnd_def)
qed

lemma rnd_exact:
  assumes q: "q = of_int m * 2 powi k" and m: "\<bar>m\<bar> < 2 ^ 53" and k: "- 1074 \<le> k"
  shows "rnd q = q"
proof (cases "q = 0")
  case True
  then show ?thesis by simp
next
  case False
  define E where "E = max (ilog2 q) (- 1022)"
  have u: "quantum q = 2 powi (E - 52)" by (simp add: quantum_def E_def)
  have "0 \<le> k - E + 52"
  proof (cases "ilog2 q \<le> - 1022")
    case True
    then show ?thesis using k by (simp add: E_def)
  next
    case False
    have "(of_int \<bar>m\<bar> :: rat) < of_int (2 ^ 53)" using m by (simp only: of_int_less_iff)
    then have "\<bar>of_int m :: rat\<bar> < 2 powi 53" by simp
    then have "\<bar>q\<bar> < 2 powi 53 * 2 powi k"
      unfolding q by (simp add: abs_mult)
    then have "\<bar>q\<bar> < 2 powi (53 + k)" by (simp add: powi2_split)
    with ilog2_bounds(1) [OF \<open>q \<noteq> 0\<close>] have "(2::rat) powi (ilog2 q) < 2 powi (53 + k)" by linarith
    then have "ilog2 q < 53 + k" by (rule powi2_less_imp)
    with False show ?thesis by (simp add: E_def)
  qed
  then obtain j where j: "k - E + 52 = int j" using nonneg_int_cases by blast
  have "q / quantum q = q / 2 powi (E - 52)" by (simp only: u)
  also have "\<dots> = of_int m * (2 powi k / 2 powi (E - 52))" by (subst q) simp
  also have "\<dots> = of_int m * 2 powi (int j)" by (simp add: powi2_div j [symmetric] algebra_simps)
  also have "\<dots> = of_int (m * 2 ^ j)" by simp
  finally have "q / quantum q = of_int (m * 2 ^ j)" .
  then have "round_even (q / quantum q) = m * 2 ^ j" by (simp only: round_even_of_int)
  then have "rnd q = of_int (m * 2 ^ j) * quantum q" using False by (simp add: rnd_def)
  also have "\<dots> = q / quantum q * quantum q" using \<open>q / quantum q = of_int (m * 2 ^ j)\<close> by simp
  also have "\<dots> = q" by simp
  finally show ?thesis .
qed

lemma fl_exact:
  assumes q: "q = of_int m * 2 powi k" and m: "\<bar>m\<bar> < 2 ^ 53" and k: "- 1074 \<le> k" "k \<le> 971"
  shows "fl q = Fin q"
proof -
  have "(of_int \<bar>m\<bar> :: rat) < of_int (2 ^ 53)" using m by (simp only: of_int_less_iff)
  then have "\<bar>of_int m :: rat\<bar> < 2 powi 53" by simp
  moreover have "(2::rat) powi k \<le> 2 powi 971" using k(2) by (rule powi2_mono)
  ultimately have "\<bar>of_int m :: rat\<bar> * 2 powi k < 2 powi 53 * 2 powi 971"
    by (intro mult_less_le_imp_less) auto
  also have "(2::rat) powi 53 * 2 powi 971 = 2 powi 1024"
    by (simp add: powi2_split [symmetric])
  finally have "\<bar>q\<bar> < 2 powi 1024" unfolding q by (simp add: abs_mult)
  then show ?thesis
    unfolding fl_def rnd_exact [OF q m k(1)] Let_def by (auto simp: abs_less_iff)
qed

lemma fl_int: "\<bar>m\<bar> < 2 ^ 53 \<Longrightarrow> fl (of_int m) = Fin (of_int m)"
  by (rule fl_exact [where m = m and k = 0]) simp_all


text \<open>The dyadic values of the example inputs are binary64 values.\<close>

lemma fl_examples:
  "fl 0 = Fin 0" "fl 150 = Fin 150" "fl 125 = Fin 125" "fl 375 = Fin 375"
  "fl (3 / 8) = Fin (3 / 8)" "fl (5 / 16) = Fin (5 / 16)" "fl (15 / 16) = Fin (15 / 16)"
  "fl (1 / 2) = Fin (1 / 2)" "fl (7 / 16) = Fin (7 / 16)"
proof -
  show "fl 0 = Fin 0" using fl_int [of 0] by simp
  show "fl 150 = Fin 150" using fl_int [of 150] by simp
  show "fl 125 = Fin 125" using fl_int [of 125] by simp
  show "fl 375 = Fin 375" using fl_int [of 375] by simp
  show "fl (3 / 8) = Fin (3 / 8)" by (rule fl_exact [where m = 3 and k = "- 3"]) simp_all
  show "fl (5 / 16) = Fin (5 / 16)" by (rule fl_exact [where m = 5 and k = "- 4"]) simp_all
  show "fl (15 / 16) = Fin (15 / 16)" by (rule fl_exact [where m = 15 and k = "- 4"]) simp_all
  show "fl (1 / 2) = Fin (1 / 2)" by (rule fl_exact [where m = 1 and k = "- 1"]) simp_all
  show "fl (7 / 16) = Fin (7 / 16)" by (rule fl_exact [where m = 7 and k = "- 4"]) simp_all
qed

section \<open>Rounding is monotone\<close>

lemma powi2_le_imp: "(2::rat) powi m \<le> 2 powi n \<Longrightarrow> m \<le> n"
proof (rule ccontr)
  assume h: "(2::rat) powi m \<le> 2 powi n" and "\<not> m \<le> n"
  then have "n < m" by simp
  then have "(2::rat) powi n < 2 powi m" by (intro power_int_strict_increasing) auto
  with h show False by simp
qed

lemma ilog2_pos_bounds:
  assumes "0 < q"
  shows "2 powi (ilog2 q) \<le> q" "q < 2 powi (ilog2 q + 1)"
  using ilog2_bounds [of q] assms by auto

lemma rnd_pos_eq:
  assumes "0 < q"
  shows "rnd q = of_int (round_even (q / quantum q)) * quantum q"
  using assms by (simp add: rnd_def)

lemma rnd_upper:
  assumes q: "0 < q" "q \<le> 2 powi n" and n: "- 1022 \<le> n"
  shows "rnd q \<le> 2 powi n"
proof -
  define E where "E = max (ilog2 q) (- 1022)"
  have u: "quantum q = 2 powi (E - 52)" by (simp add: quantum_def E_def)
  have "(2::rat) powi (ilog2 q) \<le> 2 powi n" using ilog2_pos_bounds(1) [OF q(1)] q(2) by linarith
  then have "ilog2 q \<le> n" by (rule powi2_le_imp)
  then have En: "E \<le> n" using n by (simp add: E_def)
  then obtain j where j: "n - E + 52 = int j" using nonneg_int_cases [of "n - E + 52"] by auto
  have "q / quantum q \<le> 2 powi n / quantum q"
    using q(2) by (simp add: divide_right_mono)
  also have "\<dots> = 2 powi (int j)" unfolding u by (simp add: powi2_div j [symmetric] algebra_simps)
  also have "\<dots> = of_int (2 ^ j)" by simp
  finally have "round_even (q / quantum q) \<le> round_even (of_int (2 ^ j))" by (rule round_even_mono)
  then have "round_even (q / quantum q) \<le> 2 ^ j" by (simp only: round_even_of_int)
  then have "(of_int (round_even (q / quantum q)) :: rat) \<le> of_int (2 ^ j)" by (simp only: of_int_le_iff)
  then have "of_int (round_even (q / quantum q)) * quantum q \<le> of_int (2 ^ j) * quantum q"
    by (rule mult_right_mono) simp
  also have "of_int (2 ^ j) * quantum q = 2 powi (int j) * 2 powi (E - 52)" by (simp add: u)
  also have "\<dots> = 2 powi n" by (simp add: powi2_split [symmetric] j [symmetric])
  finally show ?thesis by (simp add: rnd_pos_eq [OF q(1)])
qed

lemma rnd_lower:
  assumes q: "2 powi n \<le> q" and n: "- 1022 \<le> n"
  shows "2 powi n \<le> rnd q"
proof -
  have "(0::rat) < 2 powi n" by simp
  with q have pos: "0 < q" by linarith
  define e where "e = ilog2 q"
  have "(2::rat) powi n < 2 powi (e + 1)" using ilog2_pos_bounds(2) [OF pos] q by (simp add: e_def)
  then have "n < e + 1" by (rule powi2_less_imp)
  then have ne: "n \<le> e" by simp
  then have "max (ilog2 q) (- 1022) = ilog2 q" using n by (simp add: e_def)
  then have u: "quantum q = 2 powi (e - 52)" unfolding quantum_def e_def by (simp only:)
  have "(2::rat) powi 52 = 2 powi e / 2 powi (e - 52)" by (simp add: powi2_div)
  also have "\<dots> \<le> q / 2 powi (e - 52)"
    using ilog2_pos_bounds(1) [OF pos] by (simp add: divide_right_mono e_def)
  finally have "of_int (2 ^ 52) \<le> q / quantum q" by (simp add: u)
  then have "round_even (of_int (2 ^ 52)) \<le> round_even (q / quantum q)" by (rule round_even_mono)
  then have "2 ^ 52 \<le> round_even (q / quantum q)" by (simp only: round_even_of_int)
  then have "(of_int (2 ^ 52) :: rat) \<le> of_int (round_even (q / quantum q))" by (simp only: of_int_le_iff)
  then have A: "of_int (2 ^ 52) * quantum q \<le> of_int (round_even (q / quantum q)) * quantum q"
    by (rule mult_right_mono) simp
  have "(of_int (2 ^ 52) :: rat) = 2 powi 52" by simp
  then have "of_int (2 ^ 52) * quantum q = 2 powi 52 * 2 powi (e - 52)" by (simp only: u)
  also have "\<dots> = 2 powi e" by (subst powi2_split [symmetric]) simp
  finally have B: "of_int (2 ^ 52) * quantum q = 2 powi e" .
  from A have "2 powi e \<le> of_int (round_even (q / quantum q)) * quantum q" by (simp only: B)
  then have "2 powi e \<le> rnd q" by (simp only: rnd_pos_eq [OF pos])
  moreover have "(2::rat) powi n \<le> 2 powi e" using ne by (rule powi2_mono)
  ultimately show ?thesis by linarith
qed

lemma rnd_mono_pos:
  assumes "0 < q" "q \<le> r"
  shows "rnd q \<le> rnd r"
proof -
  from assms have r: "0 < r" by linarith
  define eq where "eq = ilog2 q"
  define er where "er = ilog2 r"
  define Eq where "Eq = max eq (- 1022)"
  define Er where "Er = max er (- 1022)"
  have uq: "quantum q = 2 powi (Eq - 52)" by (simp add: quantum_def Eq_def eq_def)
  have ur: "quantum r = 2 powi (Er - 52)" by (simp add: quantum_def Er_def er_def)
  have "(2::rat) powi eq < 2 powi (er + 1)"
    using ilog2_pos_bounds(1) [OF assms(1)] ilog2_pos_bounds(2) [OF r] assms(2)
    by (simp add: eq_def er_def)
  then have "eq < er + 1" by (rule powi2_less_imp)
  then have le: "Eq \<le> Er" by (simp add: Eq_def Er_def)
  show ?thesis
  proof (cases "Eq = Er")
    case True
    then have same: "quantum r = quantum q" by (simp add: uq ur)
    have "q / quantum q \<le> r / quantum q" using assms(2) by (simp add: divide_right_mono)
    then have "round_even (q / quantum q) \<le> round_even (r / quantum q)" by (rule round_even_mono)
    then have "(of_int (round_even (q / quantum q)) :: rat) \<le> of_int (round_even (r / quantum q))"
      by (simp only: of_int_le_iff)
    then have "of_int (round_even (q / quantum q)) * quantum q \<le> of_int (round_even (r / quantum q)) * quantum q"
      by (rule mult_right_mono) simp
    then show ?thesis by (simp add: rnd_pos_eq [OF assms(1)] rnd_pos_eq [OF r] same)
  next
    case False
    with le have lt: "Eq < Er" by simp
    then have er: "Er = er" "- 1022 \<le> er" by (auto simp: Er_def Eq_def max_def split: if_splits)
    have "q < 2 powi (eq + 1)" using ilog2_pos_bounds(2) [OF assms(1)] by (simp add: eq_def)
    moreover have "(2::rat) powi (eq + 1) \<le> 2 powi (Eq + 1)" by (rule powi2_mono) (simp add: Eq_def)
    ultimately have "q \<le> 2 powi (Eq + 1)" by linarith
    then have "rnd q \<le> 2 powi (Eq + 1)" by (rule rnd_upper [OF assms(1)]) (simp add: Eq_def)
    moreover have "(2::rat) powi (Eq + 1) \<le> 2 powi er" using lt er by (intro powi2_mono) simp
    moreover have "2 powi er \<le> rnd r"
      using ilog2_pos_bounds(1) [OF r] er(2) by (intro rnd_lower) (simp_all add: er_def)
    ultimately show ?thesis by linarith
  qed
qed

lemma rnd_nonpos: "q \<le> 0 \<Longrightarrow> rnd q \<le> 0"
  using rnd_nonneg [of "- q"] by (simp add: rnd_neg)

lemma rnd_mono:
  assumes "q \<le> r"
  shows "rnd q \<le> rnd r"
proof -
  consider "0 < q" | "q \<le> 0" "0 \<le> r" | "r < 0" by linarith
  then show ?thesis
  proof cases
    case 1
    then show ?thesis using assms by (rule rnd_mono_pos)
  next
    case 2
    then show ?thesis using rnd_nonpos [of q] rnd_nonneg [of r] by linarith
  next
    case 3
    then have "rnd (- r) \<le> rnd (- q)" using assms by (intro rnd_mono_pos) auto
    then show ?thesis by (simp add: rnd_neg)
  qed
qed

lemma rnd_one [simp]: "rnd 1 = 1"
  by (rule rnd_exact [where m = 1 and k = 0]) simp_all

lemma rnd_unit_error:
  assumes "0 \<le> q" "q \<le> 1"
  shows "\<bar>rnd q - q\<bar> \<le> 1 / 2 ^ 54"
proof -
  consider "q = 0" | "q = 1" | "0 < q" "q < 1" using assms by linarith
  then show ?thesis
  proof cases
    case 1
    then show ?thesis by simp
  next
    case 2
    then show ?thesis by simp
  next
    case 3
    define E where "E = max (ilog2 q) (- 1022)"
    have u: "quantum q = 2 powi (E - 52)" by (simp add: quantum_def E_def)
    have "(2::rat) powi (ilog2 q) < 2 powi 0" using ilog2_pos_bounds(1) [OF 3(1)] 3(2) by simp
    then have "ilog2 q < 0" by (rule powi2_less_imp)
    then have "E - 52 \<le> - 53" by (simp add: E_def)
    then have "quantum q \<le> 2 powi (- 53)" unfolding u by (rule powi2_mono)
    then have ub: "quantum q / 2 \<le> 1 / 2 ^ 54" by (simp add: power_int_minus field_simps)
    have "rnd q - q = (of_int (round_even (q / quantum q)) - q / quantum q) * quantum q"
      by (simp add: rnd_pos_eq [OF 3(1)] algebra_simps)
    then have "\<bar>rnd q - q\<bar> = \<bar>of_int (round_even (q / quantum q)) - q / quantum q\<bar> * quantum q"
      by (simp add: abs_mult)
    also have "\<dots> \<le> (1 / 2) * quantum q"
      by (rule mult_right_mono [OF round_even_error]) simp
    finally show ?thesis using ub by simp
  qed
qed

lemma rnd_unit_range:
  assumes "0 \<le> q" "q \<le> 1"
  shows "0 \<le> rnd q" "rnd q \<le> 1"
  using rnd_nonneg [OF assms(1)] rnd_mono [OF assms(2)] by simp_all

section \<open>Sorting\<close>

lemma mset_insertBy: "mset (insertBy gt a xs) = add_mset a (mset xs)"
  by (induction xs) auto

lemma mset_jsSort: "mset (jsSort gt xs) = mset xs"
  unfolding jsSort_def by (induction xs) (auto simp: mset_insertBy)

lemma set_insertBy: "set (insertBy gt a xs) = insert a (set xs)"
  by (induction xs) auto

lemma sorted_wrt_insertBy:
  assumes asym: "\<And>x y. gt x y \<Longrightarrow> \<not> gt y x"
    and negtrans: "\<And>x y z. gt x z \<Longrightarrow> gt x y \<or> gt y z"
    and srt: "sorted_wrt (\<lambda>x y. \<not> gt x y) xs"
  shows "sorted_wrt (\<lambda>x y. \<not> gt x y) (insertBy gt a xs)"
  using srt
proof (induction xs)
  case Nil
  then show ?case by simp
next
  case (Cons b bs)
  show ?case
  proof (cases "gt a b")
    case True
    with Cons asym show ?thesis by (auto simp: set_insertBy)
  next
    case False
    with Cons negtrans show ?thesis by auto
  qed
qed

lemma sorted_wrt_jsSort:
  assumes "\<And>x y. gt x y \<Longrightarrow> \<not> gt y x"
    and "\<And>x y z. gt x z \<Longrightarrow> gt x y \<or> gt y z"
  shows "sorted_wrt (\<lambda>x y. \<not> gt x y) (jsSort gt xs)"
  unfolding jsSort_def
proof (induction xs)
  case Nil
  show ?case by simp
next
  case (Cons a xs)
  have "sorted_wrt (\<lambda>x y. \<not> gt x y) (insertBy gt a (foldr (insertBy gt) xs []))"
    using assms(1) assms(2) Cons.IH by (rule sorted_wrt_insertBy)
  then show ?case by simp
qed

lemma insertBy_map:
  assumes "\<And>x y. gt (g x) (g y) = gt x y"
  shows "insertBy gt (g a) (map g xs) = map g (insertBy gt a xs)"
  by (induction xs) (auto simp: assms)

lemma jsSort_map:
  assumes "\<And>x y. gt (g x) (g y) = gt x y"
  shows "jsSort gt (map g xs) = map g (jsSort gt xs)"
  unfolding jsSort_def
  by (induction xs) (auto simp: insertBy_map assms)


section \<open>Picking\<close>

lemma pickBoxAt_None: "pickBoxAt bs u v = None \<longleftrightarrow> (\<forall>b\<in>set bs. \<not> contains b u v)"
  by (induction bs) auto

lemma pickBoxAt_Some:
  "pickBoxAt bs u v = Some b \<longleftrightarrow>
     (\<exists>pre post. bs = pre @ b # post \<and> contains b u v \<and> (\<forall>c\<in>set pre. \<not> contains c u v))"
proof (induction bs)
  case Nil
  then show ?case by simp
next
  case (Cons a bs)
  show ?case
  proof (cases "contains a u v")
    case True
    have "(\<exists>pre post. a # bs = pre @ b # post \<and> contains b u v \<and> (\<forall>c\<in>set pre. \<not> contains c u v))
          \<longleftrightarrow> a = b"
    proof
      assume "\<exists>pre post. a # bs = pre @ b # post \<and> contains b u v \<and> (\<forall>c\<in>set pre. \<not> contains c u v)"
      then obtain pre post where h: "a # bs = pre @ b # post" "\<forall>c\<in>set pre. \<not> contains c u v" by blast
      show "a = b"
      proof (cases pre)
        case Nil
        with h show ?thesis by simp
      next
        case (Cons c cs)
        with h True show ?thesis by auto
      qed
    next
      assume "a = b"
      with True have "a # bs = [] @ b # bs \<and> contains b u v \<and> (\<forall>c\<in>set []. \<not> contains c u v)" by simp
      then show "\<exists>pre post. a # bs = pre @ b # post \<and> contains b u v \<and> (\<forall>c\<in>set pre. \<not> contains c u v)"
        by blast
    qed
    with True show ?thesis by simp
  next
    case False
    have "(\<exists>pre post. a # bs = pre @ b # post \<and> contains b u v \<and> (\<forall>c\<in>set pre. \<not> contains c u v))
          \<longleftrightarrow> (\<exists>pre post. bs = pre @ b # post \<and> contains b u v \<and> (\<forall>c\<in>set pre. \<not> contains c u v))"
      (is "?L \<longleftrightarrow> ?R")
    proof
      assume ?L
      then obtain pre post where h: "a # bs = pre @ b # post" "contains b u v" "\<forall>c\<in>set pre. \<not> contains c u v" by blast
      show ?R
      proof (cases pre)
        case Nil
        with h False show ?thesis by simp
      next
        case (Cons c cs)
        with h have "bs = cs @ b # post \<and> contains b u v \<and> (\<forall>c\<in>set cs. \<not> contains c u v)" by simp
        then show ?thesis by blast
      qed
    next
      assume ?R
      then obtain pre post where h: "bs = pre @ b # post" "contains b u v" "\<forall>c\<in>set pre. \<not> contains c u v" by blast
      with False have "a # bs = (a # pre) @ b # post \<and> contains b u v \<and> (\<forall>c\<in>set (a # pre). \<not> contains c u v)" by simp
      then show ?L by blast
    qed
    with False Cons.IH show ?thesis by simp
  qed
qed

lemma js_lt_not_le: "js_lt a b \<Longrightarrow> \<not> js_le b a"
  by (cases a; cases b) (auto simp: js_le_def)

lemma js_lt_irrefl: "\<not> js_lt a a"
  by (cases a) auto

lemma pick_not_larger:
  assumes srt: "sorted_wrt (\<lambda>a b. js_le (b_area a) (b_area b)) bs"
    and b1: "b1 \<in> set bs" "contains b1 u v"
    and res: "pickBoxAt bs u v = Some b"
  shows "b = b1 \<or> js_le (b_area b) (b_area b1)"
proof -
  from res obtain pre post where h: "bs = pre @ b # post" "\<forall>c\<in>set pre. \<not> contains c u v"
    unfolding pickBoxAt_Some by blast
  from b1 h have "b1 = b \<or> b1 \<in> set post" by auto
  moreover from srt h(1) have "\<forall>c\<in>set post. js_le (b_area b) (b_area c)"
    by (simp add: sorted_wrt_append)
  ultimately show ?thesis by blast
qed


lemma example_points:
  "clamp01 (pointU pointerInside) = Fin (3 / 8)" "clamp01 (pointV pointerInside) = Fin (5 / 16)"
  "clamp01 (pointU pointerOutside) = Fin (15 / 16)" "clamp01 (pointV pointerOutside) = Fin (15 / 16)"
  by (simp_all add: pointU_def pointV_def pointerInside_def pointerOutside_def js_sub_def
      clamp01_def js_max_def js_min_def fl_examples)

lemma example_contains:
  "contains smallBox (Fin (3 / 8)) (Fin (5 / 16))"
  "contains largeBox (Fin (3 / 8)) (Fin (5 / 16))"
  "\<not> contains smallBox (Fin (15 / 16)) (Fin (15 / 16))"
  "\<not> contains largeBox (Fin (15 / 16)) (Fin (15 / 16))"
  by (simp_all add: contains_def smallBox_def largeBox_def js_ge_def js_le_def fl_examples)

section \<open>Page keys: lemmas\<close>

lemma insertBy_insort_key:
  assumes "\<And>a b. gt a b \<longleftrightarrow> key b < key a"
  shows "insertBy gt a xs = insort_key key a xs"
  by (induction xs) (auto simp: assms not_less)

lemma jsSort_sort_key:
  assumes "\<And>a b. gt a b \<longleftrightarrow> key b < (key a :: 'k :: linorder)"
  shows "jsSort gt xs = sort_key key xs"
  unfolding jsSort_def sort_key_def
  by (induction xs) (simp_all add: insertBy_insort_key [of gt key, OF assms])

lemma sortPageKeys_sort_key: "sortPageKeys ks = sort_key numberOrZero ks"
  unfolding sortPageKeys_def by (rule jsSort_sort_key) auto

lemma digitVal_digitChar: "d < 10 \<Longrightarrow> digitVal (digitChar d) = d"
  by (simp add: digitVal_def digitChar_def)

lemma isDigit_digitChar: "d < 10 \<Longrightarrow> isDigit (digitChar d)"
  by (simp add: isDigit_def digitChar_def)

lemma parseDigits_snoc: "parseDigits (ds @ [c]) = 10 * parseDigits ds + digitVal c"
  by (simp add: parseDigits_def)

lemma showNat_digits: "list_all isDigit (showNat n) \<and> showNat n \<noteq> [] \<and> parseDigits (showNat n) = n"
proof (induction n rule: showNat.induct)
  case (1 n)
  show ?case
  proof (cases "n < 10")
    case True
    then show ?thesis
      by (subst (1 2 3) showNat.simps) (simp add: isDigit_digitChar digitVal_digitChar parseDigits_def)
  next
    case False
    with 1 have ih: "list_all isDigit (showNat (n div 10))" "parseDigits (showNat (n div 10)) = n div 10"
      by auto
    show ?thesis using False ih
      by (subst (1 2 3) showNat.simps) (simp add: isDigit_digitChar digitVal_digitChar parseDigits_snoc)
  qed
qed

lemma pageKeyToNumber_showNat:
  "pageKeyToNumber (p @ ''_page_'' @ showNat n) = Some n"
proof -
  let ?d = "showNat n"
  have d: "list_all isDigit ?d" "?d \<noteq> []" "parseDigits ?d = n" using showNat_digits [of n] by auto
  have u: "\<not> isDigit CHR ''_''" by (simp add: isDigit_def)
  have r: "rev (p @ ''_page_'' @ ?d) = rev ?d @ CHR ''_'' # (rev ''_page'' @ rev p)" by simp
  have all: "\<And>x. x \<in> set (rev ?d) \<Longrightarrow> isDigit x" using d(1) by (simp add: list_all_iff)
  have t: "takeWhile isDigit (rev (p @ ''_page_'' @ ?d)) = rev ?d"
    unfolding r by (subst takeWhile_append2) (use all u in simp_all)
  have dr: "dropWhile isDigit (rev (p @ ''_page_'' @ ?d)) = CHR ''_'' # (rev ''_page'' @ rev p)"
    unfolding r by (subst dropWhile_append2) (use all u in simp_all)
  have e: "endsWith (rev (CHR ''_'' # (rev ''_page'' @ rev p))) ''_page_''"
    by (simp add: endsWith_def)
  show ?thesis
    unfolding pageKeyToNumber_def t dr Let_def using d e by simp
qed

lemma docKeyByNum_sound:
  "docKeyByNum ks i = Some k \<Longrightarrow> k \<in> set ks \<and> pageKeyToNumber k = Some i"
proof -
  have "foldl (\<lambda>m k. case pageKeyToNumber k of None \<Rightarrow> m | Some n \<Rightarrow> m(n \<mapsto> k)) m0 ks i = Some k
      \<Longrightarrow> (k \<in> set ks \<and> pageKeyToNumber k = Some i) \<or> m0 i = Some k" for m0
    by (induction ks arbitrary: m0) (fastforce split: option.splits if_splits)+
  from this [of Map.empty] show "docKeyByNum ks i = Some k \<Longrightarrow> k \<in> set ks \<and> pageKeyToNumber k = Some i"
    by (simp add: docKeyByNum_def)
qed


lemma key_examples:
  "pageKeyToNumber ''cover'' = None" "pageKeyToNumber ''doc_page_1'' = Some 1"
  "numberOrZero ''cover'' = 0" "numberOrZero ''doc_page_1'' = 1"
  "\<not> isArrayIndex ''cover''" "\<not> isArrayIndex ''doc_page_1''"
  by (simp_all add: numberOrZero_def pageKeyToNumber_def isDigit_def endsWith_def parseDigits_def
      digitVal_def isArrayIndex_def)

lemma key_example_sort: "sortPageKeys [''doc_page_1'', ''cover''] = [''cover'', ''doc_page_1'']"
  by (simp add: sortPageKeys_def jsSort_def key_examples)



section \<open>The leaderboard: lemmas\<close>

lemma map_of_alter:
  "map_of (alter k f al) u = (if u = k then map_option f (map_of al k) else map_of al u)"
  by (induction al) (auto simp: alter_def)

lemma keys_alter [simp]: "map fst (alter k f al) = map fst al"
  by (induction al) (auto simp: alter_def)

lemma map_of_snoc:
  "map_of (al @ [(k, v)]) u = (case map_of al u of Some w \<Rightarrow> Some w | None \<Rightarrow> if u = k then Some v else None)"
  by (induction al) auto

lemma firstNonEmpty_snoc:
  "firstNonEmpty (ss @ [t]) = (if firstNonEmpty ss \<noteq> [] then firstNonEmpty ss else t)"
  by (auto simp: firstNonEmpty_def filter_eq_Cons_iff split: list.splits)

lemma upvoteRowsOf_snoc:
  "upvoteRowsOf u (rows @ [r]) =
     (if voteOf r = 1 \<and> authorOf r = u then upvoteRowsOf u rows @ [r] else upvoteRowsOf u rows)"
  by (simp add: upvoteRowsOf_def)

lemma tally_invariant:
  "distinct (map fst (foldl tally [] rows)) \<and> (\<forall>u. map_of (foldl tally [] rows) u = totalFor u rows)"
proof (induction rows rule: rev_induct)
  case Nil
  show ?case by (simp add: totalFor_def upvoteRowsOf_def)
next
  case (snoc r rows)
  let ?T = "foldl tally [] rows"
  from snoc have d: "distinct (map fst ?T)" and m: "\<And>u. map_of ?T u = totalFor u rows" by auto
  have step: "foldl tally [] (rows @ [r]) = tally ?T r" by simp
  show ?case
  proof (cases "voteOf r \<noteq> 1 \<or> authorOf r = []")
    case True
    then have "tally ?T r = ?T" by (auto simp: tally_def)
    moreover have "totalFor u (rows @ [r]) = totalFor u rows" for u
      using True by (auto simp: totalFor_def upvoteRowsOf_snoc snapshotFor_def)
    ultimately show ?thesis using d m by (simp add: step)
  next
    case False
    let ?a = "authorOf r"
    let ?snap = "snapOf r"
    from False have v: "voteOf r = 1" and a: "?a \<noteq> []" by auto
    define T1 where "T1 = (if map_of ?T ?a = None then ?T @ [(?a, \<lparr>t_upvotes = 0, t_username = ?snap\<rparr>)] else ?T)"
    have t: "tally ?T r = alter ?a (\<lambda>t. if t_username t = [] \<and> ?snap \<noteq> [] then t\<lparr>t_username := ?snap\<rparr> else t)
               (alter ?a (\<lambda>t. t\<lparr>t_upvotes := t_upvotes t + 1\<rparr>) T1)"
      using v a by (simp add: tally_def Let_def T1_def)
    have d1: "distinct (map fst T1)"
      using d by (auto simp: T1_def map_of_eq_None_iff)
    have other: "map_of T1 u = map_of ?T u" if "u \<noteq> ?a" for u
      using that by (auto simp: T1_def map_add_def split: option.splits)
    have self: "map_of T1 ?a = (case map_of ?T ?a of None \<Rightarrow> Some \<lparr>t_upvotes = 0, t_username = ?snap\<rparr> | Some w \<Rightarrow> Some w)"
      by (auto simp: T1_def map_add_def split: option.splits)
    have "map_of (tally ?T r) u = totalFor u (rows @ [r])" for u
    proof (cases "u = ?a")
      case False
      then have "totalFor u (rows @ [r]) = totalFor u rows"
        by (auto simp: totalFor_def upvoteRowsOf_snoc snapshotFor_def)
      then show ?thesis using False other m by (simp add: t map_of_alter)
    next
      case True
      show ?thesis
      proof (cases "upvoteRowsOf ?a rows = []")
        case True
        then have "map_of ?T ?a = None" using m [of ?a] by (simp add: totalFor_def)
        then show ?thesis
          using \<open>u = ?a\<close> True a v
          by (simp add: t map_of_alter self totalFor_def upvoteRowsOf_snoc snapshotFor_def
              firstNonEmpty_def)
      next
        case False
        then have "map_of ?T ?a = Some \<lparr>t_upvotes = int (length (upvoteRowsOf ?a rows)), t_username = snapshotFor ?a rows\<rparr>"
          using m [of ?a] a by (simp add: totalFor_def)
        then show ?thesis
          using \<open>u = ?a\<close> False a v
          by (auto simp: t map_of_alter self totalFor_def upvoteRowsOf_snoc snapshotFor_def
              firstNonEmpty_snoc)
      qed
    qed
    moreover have "distinct (map fst (tally ?T r))" using d1 by (simp add: t)
    ultimately show ?thesis by (simp add: step)
  qed
qed


lemma mset_objectEntries: "mset (objectEntries al) = mset al"
proof -
  have "mset al = filter_mset (\<lambda>kv. isArrayIndex (fst kv)) (mset al)
                  + filter_mset (\<lambda>kv. \<not> isArrayIndex (fst kv)) (mset al)"
    by (rule multiset_partition)
  then show ?thesis by (simp add: objectEntries_def)
qed

lemma set_objectEntries: "set (objectEntries al) = set al"
  using mset_objectEntries [of al] by (metis set_mset_mset)

text \<open>The rows of the leaderboard before the cut to ten.\<close>

lemma leaderboard_all:
  fixes rows
  defines "toRow \<equiv> (\<lambda>kv. \<lparr>lb_user_id = fst kv, lb_upvotes = t_upvotes (snd kv),
                             lb_username = orElse (t_username (snd kv)) []\<rparr>)"
  defines "L \<equiv> jsSort (\<lambda>a b. 0 < lb_upvotes b - lb_upvotes a)
                  (map toRow (objectEntries (foldl tally [] rows)))"
  shows "leaderboardTop rows = take 10 L"
    and "sorted_wrt (\<lambda>a b. lb_upvotes b \<le> lb_upvotes a) L"
    and "distinct (map lb_user_id L)"
    and "\<And>r. r \<in> set L \<Longrightarrow>
           totalFor (lb_user_id r) rows = Some \<lparr>t_upvotes = lb_upvotes r, t_username = lb_username r\<rparr>"
    and "\<And>u. totalFor u rows \<noteq> None \<Longrightarrow> u \<in> set (map lb_user_id L)"
proof -
  let ?T = "foldl tally [] rows"
  note inv = tally_invariant [of rows]
  show "leaderboardTop rows = take 10 L"
    by (simp add: leaderboardTop_def L_def toRow_def)
  have "sorted_wrt (\<lambda>a b. \<not> 0 < lb_upvotes b - lb_upvotes a) L"
    unfolding L_def by (rule sorted_wrt_jsSort) auto
  then show "sorted_wrt (\<lambda>a b. lb_upvotes b \<le> lb_upvotes a) L" by (simp add: not_less)
  have ms: "mset L = mset (map toRow ?T)"
    by (simp add: L_def mset_jsSort mset_objectEntries)
  have ids: "map lb_user_id (map toRow ?T) = map fst ?T"
    by (simp add: toRow_def)
  have "mset (map lb_user_id L) = mset (map fst ?T)"
    using ms ids by (metis mset_map)
  then show "distinct (map lb_user_id L)"
    using inv by (metis mset_eq_imp_distinct_iff)
  have setL: "set L = toRow ` set ?T"
    using ms by (metis set_mset_mset set_map)
  show "totalFor (lb_user_id r) rows = Some \<lparr>t_upvotes = lb_upvotes r, t_username = lb_username r\<rparr>"
    if "r \<in> set L" for r
  proof -
    from that setL obtain u t where ut: "(u, t) \<in> set ?T" "r = toRow (u, t)" by auto
    with inv have "totalFor u rows = Some t" by (metis map_of_eq_Some_iff)
    then show ?thesis using ut(2) by (simp add: toRow_def orElse_def)
  qed
  show "u \<in> set (map lb_user_id L)" if "totalFor u rows \<noteq> None" for u
  proof -
    from that inv obtain t where "map_of ?T u = Some t" by auto
    then have "(u, t) \<in> set ?T" by (rule map_of_SomeD)
    then have "toRow (u, t) \<in> set L" using setL by blast
    then show ?thesis by (force simp: toRow_def)
  qed
qed

lemma leaderboardTop_props:
  shows "length (leaderboardTop rows) \<le> 10"
    and "sorted_wrt (\<lambda>a b. lb_upvotes b \<le> lb_upvotes a) (leaderboardTop rows)"
    and "distinct (map lb_user_id (leaderboardTop rows))"
    and "\<And>r. r \<in> set (leaderboardTop rows) \<Longrightarrow>
           totalFor (lb_user_id r) rows = Some \<lparr>t_upvotes = lb_upvotes r, t_username = lb_username r\<rparr>"
    and "\<And>u r. totalFor u rows \<noteq> None \<Longrightarrow> u \<notin> set (map lb_user_id (leaderboardTop rows)) \<Longrightarrow>
           length (leaderboardTop rows) = 10 \<and>
           (r \<in> set (leaderboardTop rows) \<longrightarrow> int (length (upvoteRowsOf u rows)) \<le> lb_upvotes r)"
proof -
  define L where "L = jsSort (\<lambda>a b. 0 < lb_upvotes b - lb_upvotes a)
      (map (\<lambda>kv. \<lparr>lb_user_id = fst kv, lb_upvotes = t_upvotes (snd kv),
                   lb_username = orElse (t_username (snd kv)) []\<rparr>) (objectEntries (foldl tally [] rows)))"
  note A = leaderboard_all [where rows = rows, folded L_def]
  have top: "leaderboardTop rows = take 10 L" by (rule A(1))
  show "length (leaderboardTop rows) \<le> 10" by (simp add: top)
  have srt: "sorted_wrt (\<lambda>a b. lb_upvotes b \<le> lb_upvotes a) (take 10 L @ drop 10 L)"
    using A(2) by simp
  then show "sorted_wrt (\<lambda>a b. lb_upvotes b \<le> lb_upvotes a) (leaderboardTop rows)"
    unfolding top sorted_wrt_append by blast
  have "distinct (map lb_user_id (take 10 L @ drop 10 L))" using A(3) by simp
  then show "distinct (map lb_user_id (leaderboardTop rows))"
    unfolding top by (simp only: map_append distinct_append)
  show "totalFor (lb_user_id r) rows = Some \<lparr>t_upvotes = lb_upvotes r, t_username = lb_username r\<rparr>"
    if "r \<in> set (leaderboardTop rows)" for r
    using that A(4) [of r] unfolding top by (auto dest: in_set_takeD)
  show "length (leaderboardTop rows) = 10 \<and>
        (r \<in> set (leaderboardTop rows) \<longrightarrow> int (length (upvoteRowsOf u rows)) \<le> lb_upvotes r)"
    if h: "totalFor u rows \<noteq> None" "u \<notin> set (map lb_user_id (leaderboardTop rows))" for u r
  proof -
    from A(5) [OF h(1)] obtain x where x: "x \<in> set L" "lb_user_id x = u" by auto
    have "set L = set (take 10 L) \<union> set (drop 10 L)" by (metis append_take_drop_id set_append)
    with x h(2) have xd: "x \<in> set (drop 10 L)" unfolding top by auto
    then have "drop 10 L \<noteq> []" by auto
    then have len: "length (take 10 L) = 10" by simp
    have "\<forall>a\<in>set (take 10 L). lb_upvotes x \<le> lb_upvotes a"
      using srt xd unfolding sorted_wrt_append by blast
    moreover have "lb_upvotes x = int (length (upvoteRowsOf u rows))"
      using A(4) [OF x(1)] x(2) by (auto simp: totalFor_def split: if_splits)
    ultimately show ?thesis using len unfolding top by auto
  qed
qed

lemma byId_liveName: "u \<noteq> [] \<Longrightarrow> byId profs u = liveName profs u"
proof (induction profs rule: rev_induct)
  case Nil
  show ?case by (simp add: byId_def liveName_def)
next
  case (snoc p profs)
  then have ih: "byId profs u = liveName profs u" by simp
  have step: "byId (profs @ [p]) =
      (if orEmpty (p_id p) \<noteq> [] \<and> trim (orEmpty (p_username p)) \<noteq> []
       then (byId profs)(orEmpty (p_id p) \<mapsto> trim (orEmpty (p_username p))) else byId profs)"
    by (simp add: byId_def Let_def)
  show ?case
    using snoc.prems ih
    by (auto simp: step liveName_def split: list.splits)
qed

lemma liveName_nonempty: "liveName profs u = Some n \<Longrightarrow> n \<noteq> []"
proof -
  assume h: "liveName profs u = Some n"
  let ?ps = "filter (\<lambda>p. orEmpty (p_id p) = u \<and> trim (orEmpty (p_username p)) \<noteq> []) profs"
  from h have ne: "?ps \<noteq> []" and n: "n = trim (orEmpty (p_username (last ?ps)))"
    by (auto simp: liveName_def split: list.splits)
  from ne have "last ?ps \<in> set ?ps" by (rule last_in_set)
  then show ?thesis using n by auto
qed


lemma loadLeaderboard_rows:
  "loadLeaderboard (Some rows) profiles =
     map (\<lambda>r. finalName (case profiles (map lb_user_id (leaderboardTop rows)) of
                            None \<Rightarrow> r | Some profs \<Rightarrow> enrich (byId profs) r))
         (leaderboardTop rows)"
  by (cases "leaderboardTop rows = []") (auto simp: loadLeaderboard_def Let_def split: option.splits)

lemma named_row [simp]:
  "lb_user_id (finalName r) = lb_user_id r" "lb_upvotes (finalName r) = lb_upvotes r"
  "lb_user_id (enrich m r) = lb_user_id r" "lb_upvotes (enrich m r) = lb_upvotes r"
  by (simp_all add: finalName_def enrich_def)

lemma loadLeaderboard_ids:
  "map lb_user_id (loadLeaderboard (Some rows) profiles) = map lb_user_id (leaderboardTop rows)"
  "map lb_upvotes (loadLeaderboard (Some rows) profiles) = map lb_upvotes (leaderboardTop rows)"
  by (auto simp: loadLeaderboard_rows split: option.splits)

lemma example_leaderboards:
  "loadLeaderboard (Some exampleVotes) failingProfiles
     = [\<lparr>lb_user_id = ''X'', lb_upvotes = 3, lb_username = ''xavier''\<rparr>]"
  "loadLeaderboard (Some exampleVotes) liveProfiles
     = [\<lparr>lb_user_id = ''X'', lb_upvotes = 3, lb_username = ''Xavier''\<rparr>]"
  "loadLeaderboard (Some [voteFor 1 ''0123456789'' '' '']) failingProfiles
     = [\<lparr>lb_user_id = ''0123456789'', lb_upvotes = 1, lb_username = ''user:01234567''\<rparr>]"
  by code_simp+

section \<open>Numbers of the examples and the normaliser: lemmas\<close>

lemma fl_cases: "fl q = PInf \<or> fl q = NInf \<or> fl q = Fin (rnd q)"
  by (simp add: fl_def Let_def)

lemma fl_not_NaN [simp]: "fl q \<noteq> NaN"
  using fl_cases [of q] by auto

lemma fl_unit:
  assumes "0 \<le> q" "q \<le> 1"
  shows "fl q = Fin (rnd q)"
proof -
  note r = rnd_unit_range [OF assms]
  have "(1::rat) < 2 powi 1024" by simp
  with r have "\<not> 2 powi 1024 \<le> rnd q" by linarith
  moreover have "\<not> rnd q \<le> - (2 powi 1024)" using r by simp
  ultimately show ?thesis by (simp add: fl_def Let_def)
qed

lemma fl_near:
  assumes "2 powi e \<le> \<bar>q\<bar>" "\<bar>q\<bar> < 2 powi (e + 1)" "u = 2 powi (max e (- 1022) - 52)"
    and "\<bar>q / u - of_int n\<bar> < 1 / 2" and "\<bar>of_int n * u\<bar> < 2 powi 1024"
  shows "fl q = Fin (of_int n * u)"
  using assms(5) unfolding fl_def rnd_near [OF assms(1-4)] Let_def by (auto simp: abs_less_iff)

lemma clamp01_range:
  assumes "t \<noteq> NaN"
  shows "\<exists>c. clamp01 t = Fin c \<and> 0 \<le> c \<and> c \<le> 1"
  using assms by (cases t) (auto simp: clamp01_def js_max_def js_min_def)

lemma clamp01_Fin: "clamp01 (Fin c) = Fin (min 1 (max 0 c))"
  by (auto simp: clamp01_def js_max_def js_min_def)

lemma swapIfInverted_Fin:
  "swapIfInverted (Fin a) (Fin b) = (Fin (min a b), Fin (max a b))"
  by (auto simp: swapIfInverted_def)

text \<open>One axis of the normaliser, from the two clamped coordinates.\<close>

lemma axis_bounds:
  assumes "0 \<le> lo" "lo \<le> hi" "hi \<le> 1"
  shows "js_max (Fin 0) (js_sub (Fin hi) (Fin lo)) = Fin (rnd (hi - lo))"
    and "0 \<le> rnd (hi - lo)" and "rnd (hi - lo) \<le> 1"
    and "lo + rnd (hi - lo) \<le> 1 + 1 / 2 ^ 54"
    and "js_le (js_add (Fin lo) (Fin (rnd (hi - lo)))) (Fin 1)"
proof -
  have d: "0 \<le> hi - lo" "hi - lo \<le> 1" using assms by auto
  note r = rnd_unit_range [OF d]
  show "0 \<le> rnd (hi - lo)" "rnd (hi - lo) \<le> 1" using r by auto
  show "js_max (Fin 0) (js_sub (Fin hi) (Fin lo)) = Fin (rnd (hi - lo))"
    using r(1) by (auto simp: js_sub_def fl_unit [OF d] js_max_def)
  have "\<bar>rnd (hi - lo) - (hi - lo)\<bar> \<le> 1 / 2 ^ 54" by (rule rnd_unit_error [OF d])
  then have "rnd (hi - lo) \<le> hi - lo + 1 / 2 ^ 54" by linarith
  then show s: "lo + rnd (hi - lo) \<le> 1 + 1 / 2 ^ 54" using assms by linarith
  have one: "rnd (1 + 1 / 2 ^ 54) = 1"
    by (subst rnd_near [where e = 0 and u = "1 / 2 ^ 52" and n = "2 ^ 52"]) simp_all
  have up: "rnd (lo + rnd (hi - lo)) \<le> 1" using rnd_mono [OF s] by (simp only: one)
  have lo0: "0 \<le> rnd (lo + rnd (hi - lo))" using assms(1) r(1) by (intro rnd_nonneg) simp
  have "(1::rat) < 2 powi 1024" by simp
  with up have "\<not> 2 powi 1024 \<le> rnd (lo + rnd (hi - lo))" by linarith
  moreover have "\<not> rnd (lo + rnd (hi - lo)) \<le> - (2 powi 1024)" using lo0 by simp
  ultimately have "fl (lo + rnd (hi - lo)) = Fin (rnd (lo + rnd (hi - lo)))"
    by (simp add: fl_def Let_def)
  then show "js_le (js_add (Fin lo) (Fin (rnd (hi - lo)))) (Fin 1)"
    using up by (auto simp: js_le_def)
qed

text \<open>The quotients and the decimal literals of the examples, as binary64 values.\<close>

lemma fl_decimals:
  "fl (1 / 10) = Fin (3602879701896397 / 36028797018963968)"
  "fl (3 / 10) = Fin (5404319552844595 / 18014398509481984)"
  "fl (1 / 40) = Fin (3602879701896397 / 144115188075855872)"
  "fl (9 / 200) = Fin (3242591731706757 / 72057594037927936)"
  "fl (999 / 1000) = Fin (8998192055486251 / 9007199254740992)"
  "fl (1999 / 2000) = Fin (4501347827556811 / 4503599627370496)"
  "fl (1 / 5) = Fin (3602879701896397 / 18014398509481984)"
  "fl (49 / 50) = Fin (2206763817411543 / 2251799813685248)"
  "fl (19 / 20) = Fin (4278419646001971 / 4503599627370496)"
  "fl (2 / 25) = Fin (5764607523034235 / 72057594037927936)"
  "fl (1 / 50) = Fin (5764607523034235 / 288230376151711744)"
  "fl (1 / 4) = Fin (1 / 4)"
proof -
  show "fl (1 / 10) = Fin (3602879701896397 / 36028797018963968)"
    by (subst fl_near [where e = "- 4" and u = "1 / 2 ^ 56" and n = 7205759403792794]) simp_all
  show "fl (3 / 10) = Fin (5404319552844595 / 18014398509481984)"
    by (subst fl_near [where e = "- 2" and u = "1 / 2 ^ 54" and n = 5404319552844595]) simp_all
  show "fl (1 / 40) = Fin (3602879701896397 / 144115188075855872)"
    by (subst fl_near [where e = "- 6" and u = "1 / 2 ^ 58" and n = 7205759403792794]) simp_all
  show "fl (9 / 200) = Fin (3242591731706757 / 72057594037927936)"
    by (subst fl_near [where e = "- 5" and u = "1 / 2 ^ 57" and n = 6485183463413514]) simp_all
  show "fl (999 / 1000) = Fin (8998192055486251 / 9007199254740992)"
    by (subst fl_near [where e = "- 1" and u = "1 / 2 ^ 53" and n = 8998192055486251]) simp_all
  show "fl (1999 / 2000) = Fin (4501347827556811 / 4503599627370496)"
    by (subst fl_near [where e = "- 1" and u = "1 / 2 ^ 53" and n = 9002695655113622]) simp_all
  show "fl (1 / 5) = Fin (3602879701896397 / 18014398509481984)"
    by (subst fl_near [where e = "- 3" and u = "1 / 2 ^ 55" and n = 7205759403792794]) simp_all
  show "fl (49 / 50) = Fin (2206763817411543 / 2251799813685248)"
    by (subst fl_near [where e = "- 1" and u = "1 / 2 ^ 53" and n = 8827055269646172]) simp_all
  show "fl (19 / 20) = Fin (4278419646001971 / 4503599627370496)"
    by (subst fl_near [where e = "- 1" and u = "1 / 2 ^ 53" and n = 8556839292003942]) simp_all
  show "fl (2 / 25) = Fin (5764607523034235 / 72057594037927936)"
    by (subst fl_near [where e = "- 4" and u = "1 / 2 ^ 56" and n = 5764607523034235]) simp_all
  show "fl (1 / 50) = Fin (5764607523034235 / 288230376151711744)"
    by (subst fl_near [where e = "- 6" and u = "1 / 2 ^ 58" and n = 5764607523034235]) simp_all
  show "fl (1 / 4) = Fin (1 / 4)"
    by (rule fl_exact [where m = 1 and k = "- 2"]) simp_all
qed

lemma showNat_0: "showNat 0 = ''0''"
proof -
  have "digitChar 0 = CHR ''0''" by code_simp
  then show ?thesis by (subst showNat.simps) simp
qed

lemma lineWith_fields [simp]: "uid (lineWith bb) = ''0-0''" "bbox (lineWith bb) = bb"
  by (simp_all add: lineWith_def withUid_def showNat_0 line.defs line_with_uid.defs)

lemma pageWith_dims [simp]: "width (pageWith bb) = Fin 1000" "height (pageWith bb) = Fin 2000"
  by (simp_all add: pageWith_def)

lemma getAllLinesForPage_pageWith: "getAllLinesForPage (pageWith bb) = [lineWith bb]"
  by (simp add: getAllLinesForPage_def pageWith_def lineWith_def enumerate_eq_zip)

lemma fl_differences:
  "fl (7205759403792793 / 36028797018963968) = Fin (7205759403792793 / 36028797018963968)"
  "fl (2882303761517117 / 144115188075855872) = Fin (2882303761517117 / 144115188075855872)"
  "fl (8998192055486251 / 9007199254740992) = Fin (8998192055486251 / 9007199254740992)"
  "fl (4501347827556811 / 4503599627370496) = Fin (4501347827556811 / 4503599627370496)"
proof -
  show "fl (7205759403792793 / 36028797018963968) = Fin (7205759403792793 / 36028797018963968)"
    by (rule fl_exact [where m = 7205759403792793 and k = "- 55"]) simp_all
  show "fl (2882303761517117 / 144115188075855872) = Fin (2882303761517117 / 144115188075855872)"
    by (rule fl_exact [where m = 2882303761517117 and k = "- 57"]) simp_all
  show "fl (8998192055486251 / 9007199254740992) = Fin (8998192055486251 / 9007199254740992)"
    by (rule fl_exact [where m = 8998192055486251 and k = "- 53"]) simp_all
  show "fl (4501347827556811 / 4503599627370496) = Fin (4501347827556811 / 4503599627370496)"
    by (rule fl_exact [where m = 4501347827556811 and k = "- 52"]) simp_all
qed

lemma fl_areas:
  "fl (20769187434139305614205590737781 / 5192296858534827628530496329220096)
     = Fin (4611686018427387 / 1152921504606846976)"
  "fl (40503992260901991683833931905561 / 40564819207303340847894502572032)
     = Fin (2248423239864627 / 2251799813685248)"
proof -
  show "fl (20769187434139305614205590737781 / 5192296858534827628530496329220096)
     = Fin (4611686018427387 / 1152921504606846976)"
    by (subst fl_near [where e = "- 8" and u = "1 / 2 ^ 60" and n = 4611686018427387]) simp_all
  show "fl (40503992260901991683833931905561 / 40564819207303340847894502572032)
     = Fin (2248423239864627 / 2251799813685248)"
    by (subst fl_near [where e = "- 1" and u = "1 / 2 ^ 53" and n = 8993692959458508]) simp_all
qed

lemma normalize_lineBox:
  "normalizeBox u lineBox (Fin 1000) (Fin 2000) =
     \<lparr>b_uid = u, b_x = Fin (3602879701896397 / 36028797018963968),
      b_y = Fin (3602879701896397 / 144115188075855872),
      b_w = Fin (7205759403792793 / 36028797018963968),
      b_h = Fin (2882303761517117 / 144115188075855872),
      b_area = Fin (4611686018427387 / 1152921504606846976)\<rparr>"
proof -
  have x1: "clamp01 (js_div (Fin 100) (Fin 1000)) = Fin (3602879701896397 / 36028797018963968)"
    and x2: "clamp01 (js_div (Fin 300) (Fin 1000)) = Fin (5404319552844595 / 18014398509481984)"
    and y1: "clamp01 (js_div (Fin 50) (Fin 2000)) = Fin (3602879701896397 / 144115188075855872)"
    and y2: "clamp01 (js_div (Fin 90) (Fin 2000)) = Fin (3242591731706757 / 72057594037927936)"
    by (simp_all add: fl_decimals clamp01_Fin)
  have w: "js_max (Fin 0) (js_sub (Fin (5404319552844595 / 18014398509481984))
              (Fin (3602879701896397 / 36028797018963968)))
           = Fin (7205759403792793 / 36028797018963968)"
    by (simp add: js_sub_def fl_differences js_max_def)
  have h: "js_max (Fin 0) (js_sub (Fin (3242591731706757 / 72057594037927936))
              (Fin (3602879701896397 / 144115188075855872)))
           = Fin (2882303761517117 / 144115188075855872)"
    by (simp add: js_sub_def fl_differences js_max_def)
  show ?thesis
    unfolding normalizeBox_def lineBox_def
    by (simp only: prod.case x1 x2 y1 y2 swapIfInverted_Fin Let_def w h js_mul.simps fl_areas)
       (simp add: w h fl_areas)
qed

lemma normalize_pageBox:
  "normalizeBox u pageBox (Fin 1000) (Fin 2000) =
     \<lparr>b_uid = u, b_x = Fin 0, b_y = Fin 0,
      b_w = Fin (8998192055486251 / 9007199254740992),
      b_h = Fin (4501347827556811 / 4503599627370496),
      b_area = Fin (2248423239864627 / 2251799813685248)\<rparr>"
proof -
  have x1: "clamp01 (js_div (Fin 0) (Fin 1000)) = Fin 0"
    and x2: "clamp01 (js_div (Fin 999) (Fin 1000)) = Fin (8998192055486251 / 9007199254740992)"
    and y1: "clamp01 (js_div (Fin 0) (Fin 2000)) = Fin 0"
    and y2: "clamp01 (js_div (Fin 1999) (Fin 2000)) = Fin (4501347827556811 / 4503599627370496)"
    by (simp_all add: fl_decimals fl_examples clamp01_Fin)
  have w: "js_max (Fin 0) (js_sub (Fin (8998192055486251 / 9007199254740992)) (Fin 0))
           = Fin (8998192055486251 / 9007199254740992)"
    by (simp add: js_sub_def fl_differences js_max_def)
  have h: "js_max (Fin 0) (js_sub (Fin (4501347827556811 / 4503599627370496)) (Fin 0))
           = Fin (4501347827556811 / 4503599627370496)"
    by (simp add: js_sub_def fl_differences js_max_def)
  show ?thesis
    unfolding normalizeBox_def pageBox_def
    by (simp only: prod.case x1 x2 y1 y2 swapIfInverted_Fin Let_def)
       (simp add: w h fl_areas)
qed

lemma lits:
  "lit (1 / 5) = Fin (3602879701896397 / 18014398509481984)"
  "lit (1 / 4) = Fin (1 / 4)"
  "lit (49 / 50) = Fin (2206763817411543 / 2251799813685248)"
  "lit (1 / 2) = Fin (1 / 2)"
  "lit (19 / 20) = Fin (4278419646001971 / 4503599627370496)"
  "lit (999 / 1000) = Fin (8998192055486251 / 9007199254740992)"
  "lit (2 / 25) = Fin (5764607523034235 / 72057594037927936)"
  "lit (1 / 50) = Fin (5764607523034235 / 288230376151711744)"
  "lit (1 / 10) = Fin (3602879701896397 / 36028797018963968)"
  "lit (1 / 40) = Fin (3602879701896397 / 144115188075855872)"
  by (simp_all add: lit_def fl_decimals fl_examples)

lemma good_example_data:
  "\<not> badData lineBox (Fin 1000) (Fin 2000)" "\<not> badData pageBox (Fin 1000) (Fin 2000)"
  by (simp_all add: badData_def lineBox_def pageBox_def isFinite_def js_le_def)

lemma accepted_lineBox: "accepted (Fin 1000) (Fin 2000) (lineWith lineBox)"
  by (simp add: accepted_def good_example_data normalize_lineBox degenerate_def oversized_def
      lits js_le_def js_gt_def)

lemma rejected_pageBox:
  "\<not> degenerate (normalizeBox u pageBox (Fin 1000) (Fin 2000))"
  "oversized (normalizeBox u pageBox (Fin 1000) (Fin 2000))"
  "\<not> accepted (Fin 1000) (Fin 2000) (lineWith pageBox)"
  by (simp_all add: accepted_def normalize_pageBox degenerate_def oversized_def
      lits js_le_def js_gt_def)

lemma fl_edge:
  "fl (4503599627370497 / 36028797018963968) = Fin (4503599627370497 / 36028797018963968)"
  "fl (31525197391593471 / 36028797018963968) = Fin (7 / 8)"
  "fl 1 = Fin 1" "fl (1 / 16) = Fin (1 / 16)" "fl (7 / 128) = Fin (7 / 128)"
proof -
  show "fl (4503599627370497 / 36028797018963968) = Fin (4503599627370497 / 36028797018963968)"
    by (rule fl_exact [where m = 4503599627370497 and k = "- 55"]) simp_all
  show "fl (31525197391593471 / 36028797018963968) = Fin (7 / 8)"
    by (subst fl_near [where e = "- 1" and u = "1 / 2 ^ 53" and n = 7881299347898368]) simp_all
  show "fl 1 = Fin 1" using fl_int [of 1] by simp
  show "fl (1 / 16) = Fin (1 / 16)" by (rule fl_exact [where m = 1 and k = "- 4"]) simp_all
  show "fl (7 / 128) = Fin (7 / 128)" by (rule fl_exact [where m = 7 and k = "- 7"]) simp_all
qed

lemma normalize_edgeBox:
  "normalizeBox u edgeBox (Fin 1024) (Fin 1024) =
     \<lparr>b_uid = u, b_x = Fin (4503599627370497 / 36028797018963968), b_y = Fin 0,
      b_w = Fin (7 / 8), b_h = Fin (1 / 16), b_area = Fin (7 / 128)\<rparr>"
proof -
  have x1: "clamp01 (js_div (Fin (4503599627370497 / 35184372088832)) (Fin 1024))
              = Fin (4503599627370497 / 36028797018963968)"
    and x2: "clamp01 (js_div (Fin 1024) (Fin 1024)) = Fin 1"
    and y1: "clamp01 (js_div (Fin 0) (Fin 1024)) = Fin 0"
    and y2: "clamp01 (js_div (Fin 64) (Fin 1024)) = Fin (1 / 16)"
    by (simp_all add: fl_edge fl_examples clamp01_Fin)
  have w: "js_max (Fin 0) (js_sub (Fin 1) (Fin (4503599627370497 / 36028797018963968))) = Fin (7 / 8)"
    by (simp add: js_sub_def fl_edge js_max_def)
  have h: "js_max (Fin 0) (js_sub (Fin (1 / 16)) (Fin 0)) = Fin (1 / 16)"
    by (simp add: js_sub_def fl_edge js_max_def)
  show ?thesis
    unfolding normalizeBox_def edgeBox_def
    by (simp only: prod.case x1 x2 y1 y2 swapIfInverted_Fin Let_def)
       (simp add: w h fl_edge)
qed

lemma accepted_edgeBox:
  "\<not> badData edgeBox (Fin 1024) (Fin 1024)"
  "accepted (Fin 1024) (Fin 1024) (lineWith edgeBox)"
proof -
  show b: "\<not> badData edgeBox (Fin 1024) (Fin 1024)"
    by (simp add: badData_def edgeBox_def isFinite_def js_le_def)
  show "accepted (Fin 1024) (Fin 1024) (lineWith edgeBox)"
    by (simp add: accepted_def b normalize_edgeBox degenerate_def oversized_def
      lits js_le_def js_gt_def)
qed

lemma processLine_accepted:
  "processLine production pageW pageH st l =
     (if accepted pageW pageH l
      then st\<lparr>console := console st @ warningsFor production pageW pageH l,
              boxes := (boxes st)(uid l \<mapsto> rectOf (normalizeBox (uid l) (bbox l) pageW pageH)),
              nextHitBoxes := nextHitBoxes st @ [normalizeBox (uid l) (bbox l) pageW pageH]\<rparr>
      else st)"
  by (simp add: processLine_def accepted_def warningsFor_def rectOf_def Let_def)

lemma foldl_processLine_filter:
  "foldl (processLine production pageW pageH) st ls
     = foldl (processLine production pageW pageH) st (filter (accepted pageW pageH) ls)"
  by (induction ls arbitrary: st) (simp_all add: processLine_accepted)

lemma foldl_processLine_outputs:
  "nextHitBoxes (foldl (processLine production pageW pageH) st ls)
     = nextHitBoxes st @ map (\<lambda>l. normalizeBox (uid l) (bbox l) pageW pageH) (filter (accepted pageW pageH) ls)"
  "console (foldl (processLine production pageW pageH) st ls)
     = console st @ concat (map (warningsFor production pageW pageH) (filter (accepted pageW pageH) ls))"
  by (induction ls arbitrary: st) (simp_all add: processLine_accepted)

lemma buildHitBoxes_outputs:
  "mset (nextHitBoxes (buildHitBoxes production pageObj))
     = mset (map (\<lambda>l. normalizeBox (uid l) (bbox l) (width pageObj) (height pageObj))
              (filter (accepted (width pageObj) (height pageObj)) (getAllLinesForPage pageObj)))"
  "console (buildHitBoxes production pageObj)
     = concat (map (warningsFor production (width pageObj) (height pageObj))
              (filter (accepted (width pageObj) (height pageObj)) (getAllLinesForPage pageObj)))"
  by (simp_all add: buildHitBoxes_def Let_def foldl_processLine_outputs mset_jsSort)

lemma isFinite_Fin: "isFinite a \<Longrightarrow> \<exists>q. a = Fin q"
  by (cases a) (simp_all add: isFinite_def)

lemma normalizeBox_bounds:
  assumes "\<not> badData bb pageW pageH"
  shows "\<exists>x y w h. normalizeBox u bb pageW pageH
            = \<lparr>b_uid = u, b_x = Fin x, b_y = Fin y, b_w = Fin w, b_h = Fin h,
               b_area = js_mul (Fin w) (Fin h)\<rparr>
          \<and> 0 \<le> x \<and> 0 \<le> y \<and> 0 \<le> w \<and> 0 \<le> h \<and> w \<le> 1 \<and> h \<le> 1
          \<and> x + w \<le> 1 + 1 / 2 ^ 54 \<and> y + h \<le> 1 + 1 / 2 ^ 54
          \<and> js_le (js_add (Fin x) (Fin w)) (Fin 1) \<and> js_le (js_add (Fin y) (Fin h)) (Fin 1)"
proof -
  obtain x1p y1p x2p y2p where bb: "bb = (x1p, y1p, x2p, y2p)" by (cases bb) auto
  from assms have fin: "isFinite x1p" "isFinite y1p" "isFinite x2p" "isFinite y2p"
      "isFinite pageW" "isFinite pageH"
    and nle: "\<not> js_le pageW (Fin 0)" "\<not> js_le pageH (Fin 0)"
    unfolding bb badData_def by simp_all
  from fin obtain a1 b1 a2 b2 pw ph where
    f: "x1p = Fin a1" "y1p = Fin b1" "x2p = Fin a2" "y2p = Fin b2" "pageW = Fin pw" "pageH = Fin ph"
    by (meson isFinite_Fin)
  from nle have pos: "0 < pw" "0 < ph" unfolding f by (auto simp: js_le_def)
  have q: "js_div (Fin a) (Fin pw) \<noteq> NaN" "js_div (Fin a) (Fin ph) \<noteq> NaN" for a
    using pos by simp_all
  obtain c1 where c1: "clamp01 (js_div x1p pageW) = Fin c1" "0 \<le> c1" "c1 \<le> 1"
    using clamp01_range [OF q(1) [of a1]] f by auto
  obtain c2 where c2: "clamp01 (js_div x2p pageW) = Fin c2" "0 \<le> c2" "c2 \<le> 1"
    using clamp01_range [OF q(1) [of a2]] f by auto
  obtain d1 where d1: "clamp01 (js_div y1p pageH) = Fin d1" "0 \<le> d1" "d1 \<le> 1"
    using clamp01_range [OF q(2) [of b1]] f by auto
  obtain d2 where d2: "clamp01 (js_div y2p pageH) = Fin d2" "0 \<le> d2" "d2 \<le> 1"
    using clamp01_range [OF q(2) [of b2]] f by auto
  have X: "0 \<le> min c1 c2" "min c1 c2 \<le> max c1 c2" "max c1 c2 \<le> 1" using c1 c2 by auto
  have Y: "0 \<le> min d1 d2" "min d1 d2 \<le> max d1 d2" "max d1 d2 \<le> 1" using d1 d2 by auto
  note AX = axis_bounds [OF X] and AY = axis_bounds [OF Y]
  have eq: "normalizeBox u bb pageW pageH
      = \<lparr>b_uid = u, b_x = Fin (min c1 c2), b_y = Fin (min d1 d2),
         b_w = Fin (rnd (max c1 c2 - min c1 c2)), b_h = Fin (rnd (max d1 d2 - min d1 d2)),
         b_area = js_mul (Fin (rnd (max c1 c2 - min c1 c2))) (Fin (rnd (max d1 d2 - min d1 d2)))\<rparr>"
    unfolding normalizeBox_def bb
    by (simp only: prod.case c1(1) c2(1) d1(1) d2(1) swapIfInverted_Fin Let_def AX(1) AY(1))
  show ?thesis
    using eq X(1) Y(1) AX(2-5) AY(2-5) by blast
qed

section \<open>The index is sorted by area\<close>

lemma rnd_grid: "\<exists>N. rnd x = of_int N * 2 powi (- 1074)"
proof (cases "x = 0")
  case True
  then have "rnd x = of_int 0 * 2 powi (- 1074)" by simp
  then show ?thesis by blast
next
  case False
  define E where "E = max (ilog2 x) (- 1022)"
  have "0 \<le> E + 1022" by (simp add: E_def)
  then obtain j where j: "E + 1022 = int j" using nonneg_int_cases by blast
  have "quantum x = 2 powi (int j + (- 1074))"
    unfolding quantum_def E_def [symmetric] using j by (intro arg_cong [where f = "power_int 2"]) simp
  also have "\<dots> = 2 powi (int j) * 2 powi (- 1074)" by (rule powi2_split)
  also have "\<dots> = of_int (2 ^ j) * 2 powi (- 1074)" by simp
  finally have "rnd x = of_int (round_even (x / quantum x) * 2 ^ j) * 2 powi (- 1074)"
    using False by (simp add: rnd_def)
  then show ?thesis by blast
qed

lemma rnd_least [simp]: "rnd (2 powi (- 1074)) = 2 powi (- 1074)"
  by (rule rnd_exact [where m = 1 and k = "- 1074"]) simp_all

lemma rnd_diff_sign:
  assumes "p = of_int P * 2 powi (- 1074)" "q = of_int Q * 2 powi (- 1074)"
  shows "0 < rnd (p - q) \<longleftrightarrow> q < p"
proof
  assume "0 < rnd (p - q)"
  then show "q < p" using rnd_nonpos [of "p - q"] by (cases "q < p") auto
next
  assume "q < p"
  have g: "(0::rat) < 2 powi (- 1074)" by simp
  from \<open>q < p\<close> have "(of_int Q :: rat) * 2 powi (- 1074) < of_int P * 2 powi (- 1074)"
    by (simp only: assms)
  then have "(of_int Q :: rat) < of_int P" using g by (simp only: mult_less_cancel_right_pos)
  then have "Q + 1 \<le> P" by simp
  then have "(of_int (Q + 1) :: rat) \<le> of_int P" by (simp only: of_int_le_iff)
  then have "(of_int (Q + 1) :: rat) * 2 powi (- 1074) \<le> of_int P * 2 powi (- 1074)"
    using g by (simp only: mult_le_cancel_right_pos)
  then have "2 powi (- 1074) \<le> p - q" unfolding assms by (simp add: algebra_simps)
  then have "rnd (2 powi (- 1074)) \<le> rnd (p - q)" by (rule rnd_mono)
  then have "2 powi (- 1074) \<le> rnd (p - q)" by (simp only: rnd_least)
  with g show "0 < rnd (p - q)" by linarith
qed

lemma js_gt_fl_zero: "js_gt (fl d) (Fin 0) \<longleftrightarrow> 0 < rnd d"
proof -
  have "(0::rat) < 2 powi 1024" by simp
  then show ?thesis
    unfolding fl_def Let_def js_gt_def
    by (auto simp: not_le)
qed

lemma areaAfter_grid:
  assumes "b_area a = Fin (rnd p)" "b_area b = Fin (rnd q)"
  shows "areaAfter a b \<longleftrightarrow> areaVal b < areaVal a"
proof -
  obtain P Q where "rnd p = of_int P * 2 powi (- 1074)" "rnd q = of_int Q * 2 powi (- 1074)"
    using rnd_grid [of p] rnd_grid [of q] by blast
  then have "0 < rnd (rnd p - rnd q) \<longleftrightarrow> rnd q < rnd p" by (rule rnd_diff_sign)
  then show ?thesis
    by (simp add: areaAfter_def assms js_sub_def js_gt_fl_zero areaVal_def)
qed

lemma insertBy_cong:
  assumes "\<And>y. y \<in> set ys \<Longrightarrow> gt a y = gt' a y"
  shows "insertBy gt a ys = insertBy gt' a ys"
  using assms by (induction ys) auto

lemma jsSort_cong:
  assumes "\<And>x y. x \<in> set xs \<Longrightarrow> y \<in> set xs \<Longrightarrow> gt x y = gt' x y"
  shows "jsSort gt xs = jsSort gt' xs"
  using assms
proof (induction xs)
  case Nil
  show ?case by (simp add: jsSort_def)
next
  case (Cons a xs)
  then have ih: "jsSort gt xs = jsSort gt' xs" by simp
  have s: "set (jsSort gt' xs) = set xs" using mset_jsSort [of gt' xs] by (metis set_mset_mset)
  have "insertBy gt a (jsSort gt' xs) = insertBy gt' a (jsSort gt' xs)"
    by (rule insertBy_cong) (simp add: s Cons.prems)
  then show ?case using ih by (simp add: jsSort_def)
qed

lemma normalizeBox_area:
  assumes "\<not> badData bb pageW pageH"
  shows "\<exists>q. b_area (normalizeBox u bb pageW pageH) = Fin (rnd q)"
proof -
  from normalizeBox_bounds [OF assms, of u] obtain x y w h where
    eq: "normalizeBox u bb pageW pageH
            = \<lparr>b_uid = u, b_x = Fin x, b_y = Fin y, b_w = Fin w, b_h = Fin h,
               b_area = js_mul (Fin w) (Fin h)\<rparr>"
    and b: "0 \<le> w" "0 \<le> h" "w \<le> 1" "h \<le> 1"
    by blast
  have "0 \<le> w * h" "w * h \<le> 1" using b by (simp_all add: mult_le_one)
  then have "fl (w * h) = Fin (rnd (w * h))" by (rule fl_unit)
  then show ?thesis by (auto simp: eq)
qed

lemma hitBoxes_sorted:
  "sorted_wrt (\<lambda>a b. js_le (b_area a) (b_area b)) (nextHitBoxes (buildHitBoxes production pageObj))"
proof -
  let ?W = "width pageObj" and ?H = "height pageObj"
  let ?bs = "map (\<lambda>l. normalizeBox (uid l) (bbox l) ?W ?H)
              (filter (accepted ?W ?H) (getAllLinesForPage pageObj))"
  have built: "nextHitBoxes (buildHitBoxes production pageObj) = jsSort areaAfter ?bs"
    by (simp add: buildHitBoxes_def Let_def foldl_processLine_outputs)
  have grid: "\<exists>q. b_area b = Fin (rnd q)" if "b \<in> set ?bs" for b
  proof -
    from that obtain l where "accepted ?W ?H l" "b = normalizeBox (uid l) (bbox l) ?W ?H" by auto
    then show ?thesis using normalizeBox_area [of "bbox l" ?W ?H "uid l"] by (auto simp: accepted_def)
  qed
  have "jsSort areaAfter ?bs = jsSort (\<lambda>a b. areaVal b < areaVal a) ?bs"
  proof (rule jsSort_cong)
    fix a b
    assume "a \<in> set ?bs" "b \<in> set ?bs"
    then obtain p q where "b_area a = Fin (rnd p)" "b_area b = Fin (rnd q)"
      using grid by blast
    then show "areaAfter a b = (areaVal b < areaVal a)" by (rule areaAfter_grid)
  qed
  also have "\<dots> = sort_key areaVal ?bs" by (rule jsSort_sort_key) simp
  finally have eq: "nextHitBoxes (buildHitBoxes production pageObj) = sort_key areaVal ?bs"
    using built by simp
  have "sorted (map areaVal (sort_key areaVal ?bs))" by simp
  then have s: "sorted_wrt (\<lambda>a b. areaVal a \<le> areaVal b) (sort_key areaVal ?bs)"
    by (simp add: sorted_map)
  have "sorted_wrt (\<lambda>a b. js_le (b_area a) (b_area b)) (sort_key areaVal ?bs)"
  proof (rule sorted_wrt_mono_rel [OF _ s])
    fix a b
    assume "a \<in> set (sort_key areaVal ?bs)" "b \<in> set (sort_key areaVal ?bs)" "areaVal a \<le> areaVal b"
    moreover from this obtain p q where "b_area a = Fin (rnd p)" "b_area b = Fin (rnd q)"
      using grid by auto blast
    ultimately show "js_le (b_area a) (b_area b)" by (auto simp: js_le_def areaVal_def)
  qed
  then show ?thesis by (simp only: eq)
qed

section \<open>The pointer handlers: lemmas\<close>

lemma clock_examples:
  "clockTime ''10:00'' = 36000000" "clockTime ''10:05'' = 36300000" "clockTime ''10:10'' = 36600000"
  by (simp_all add: clockTime_def parseDigits_def digitVal_def)

lemma example_rects: "\<not> emptyRect pointerInside" "\<not> emptyRect pointerOutside"
  by (simp_all add: emptyRect_def pointerInside_def pointerOutside_def js_le_def)

lemma click_hit_eq:
  assumes "\<not> isDragging s" "\<not> noTranscription s" "\<not> emptyRect e"
    and "pickBoxAt (hitBoxes s) (clamp01 (pointU e)) (clamp01 (pointV e)) = Some picked"
  shows "onHitSvgClick e s =
     s\<lparr>activeSource := Some SrcLeft, activeId := Some (b_uid picked),
       activeBox := boxByUid s (b_uid picked), collapseSuggestions := False,
       collapsedUid := toggleCollapsed (activeId s = Some (b_uid picked)) (b_uid picked) (collapsedUid s),
       openSuggestUid := None\<rparr>"
  using assms by (simp add: onHitSvgClick_def Let_def)

lemma tiny_contains: "contains tinyBox (Fin (3 / 8)) (Fin (5 / 16))"
  by (simp add: contains_def tinyBox_def js_ge_def js_le_def fl_examples)

lemma raw_points: "pointU pointerInside = Fin (3 / 8)" "pointV pointerInside = Fin (5 / 16)"
  by (simp_all add: pointU_def pointV_def pointerInside_def js_sub_def fl_examples)

lemma stale_run:
  "renderEffect production (selectPage ''doc_page_2'' (onHitSvgMouseMove pointerInside idleState))
     = staleState"
proof -
  have "onHitSvgMouseMove pointerInside idleState
          = idleState\<lparr>hoverPt := Some (Fin (3 / 8), Fin (5 / 16)),
                      hoverRaf := Some \<lparr>fc_hitBoxes = [smallBox, largeBox], fc_activeId = None,
                                        fc_activeSource = None\<rparr>\<rparr>"
    by (simp add: onHitSvgMouseMove_def example_rects raw_points Let_def) (simp add: idleState_def)
  then show ?thesis
    by (simp add: renderEffect_def selectPage_def staleState_def idleState_def)
qed

lemma stale_frame:
  "highlight (hoverFrame (onHitSvgMouseMove pointerInside staleState))
     = (Some ''2-5'', Some SrcLeft, None)"
proof -
  have m: "onHitSvgMouseMove pointerInside staleState = staleState"
    by (simp add: onHitSvgMouseMove_def example_rects raw_points Let_def) (simp add: staleState_def)
  have c: "clamp01 (Fin (3 / 8)) = Fin (3 / 8)" "clamp01 (Fin (5 / 16)) = Fin (5 / 16)"
    using example_points(1,2) by (simp_all add: raw_points)
  have u: "b_uid smallBox = ''2-5''"
    by (simp add: smallBox_def)
  show ?thesis
    unfolding m
    by (simp add: hoverFrame_def staleState_def idleState_def c example_contains u highlight_def Let_def)
qed

section \<open>The claims\<close>

text \<open>
  C1. Stated for any two boxes that contain the point, the claim fails on an index of
  three nested boxes: both the box of area \<open>1/32\<close> and the box of area \<open>3/32\<close> contain
  the point, and the box returned is a third one, of area \<open>1/64\<close>.
\<close>

theorem pickBoxAt_third_box_counterexample:
  "sorted_wrt (\<lambda>a b. js_le (b_area a) (b_area b)) [tinyBox, smallBox, largeBox]
   \<and> contains smallBox (Fin (3 / 8)) (Fin (5 / 16))
   \<and> contains largeBox (Fin (3 / 8)) (Fin (5 / 16))
   \<and> js_lt (b_area smallBox) (b_area largeBox)
   \<and> pickBoxAt [tinyBox, smallBox, largeBox] (Fin (3 / 8)) (Fin (5 / 16)) = Some tinyBox
   \<and> tinyBox \<noteq> smallBox
   \<and> b_area tinyBox \<noteq> b_area smallBox"
proof -
  have s: "sorted_wrt (\<lambda>a b. js_le (b_area a) (b_area b)) [tinyBox, smallBox, largeBox]"
    by (simp add: tinyBox_def smallBox_def largeBox_def js_le_def)
  have l: "js_lt (b_area smallBox) (b_area largeBox)"
    by (simp add: smallBox_def largeBox_def)
  have p: "pickBoxAt [tinyBox, smallBox, largeBox] (Fin (3 / 8)) (Fin (5 / 16)) = Some tinyBox"
    by (simp add: tiny_contains)
  have d: "tinyBox \<noteq> smallBox" "b_area tinyBox \<noteq> b_area smallBox"
    by (simp_all add: tinyBox_def smallBox_def)
  from s l p d example_contains(1,2) show ?thesis by simp
qed

text \<open>
  C1, amended. For a list of boxes sorted ascending by area and a point \<open>(u, v)\<close>,
  \<open>pickBoxAt\<close> returns the first box of the list whose rectangle contains the point,
  bounds included, and \<open>null\<close> when none does. The box returned has the least area of
  the boxes that contain the point. Hence of two boxes of the list that both contain the
  point, the one with the larger area is never returned: the result is the other box or
  one that is no larger, and it is the smaller of the two when no third box of the list
  contains the point. The index the page render builds is such a list.
\<close>

theorem pickBoxAt_first_smallest:
  assumes "sorted_wrt (\<lambda>a b. js_le (b_area a) (b_area b)) bs"
  shows "(case pickBoxAt bs u v of
            None \<Rightarrow> \<forall>b\<in>set bs. \<not> contains b u v
          | Some b \<Rightarrow> (\<exists>pre post. bs = pre @ b # post \<and> contains b u v
                         \<and> (\<forall>c\<in>set pre. \<not> contains c u v))
                      \<and> (\<forall>c\<in>set bs. contains c u v \<longrightarrow> c = b \<or> js_le (b_area b) (b_area c)))
       \<and> (\<forall>b1 b2. b1 \<in> set bs \<and> b2 \<in> set bs \<and> contains b1 u v \<and> contains b2 u v
              \<and> js_lt (b_area b1) (b_area b2)
            \<longrightarrow> (\<exists>b. pickBoxAt bs u v = Some b \<and> b \<noteq> b2
                      \<and> (b = b1 \<or> js_le (b_area b) (b_area b1))
                      \<and> ((\<forall>c\<in>set bs. contains c u v \<longrightarrow> c = b1 \<or> c = b2) \<longrightarrow> b = b1)))
       \<and> sorted_wrt (\<lambda>a b. js_le (b_area a) (b_area b))
            (nextHitBoxes (buildHitBoxes production pageObj))"
proof (intro conjI allI impI)
  show "case pickBoxAt bs u v of
            None \<Rightarrow> \<forall>b\<in>set bs. \<not> contains b u v
          | Some b \<Rightarrow> (\<exists>pre post. bs = pre @ b # post \<and> contains b u v
                         \<and> (\<forall>c\<in>set pre. \<not> contains c u v))
                      \<and> (\<forall>c\<in>set bs. contains c u v \<longrightarrow> c = b \<or> js_le (b_area b) (b_area c))"
  proof (cases "pickBoxAt bs u v")
    case None
    then show ?thesis using pickBoxAt_None [of bs u v] by simp
  next
    case (Some b)
    have "c = b \<or> js_le (b_area b) (b_area c)" if "c \<in> set bs" "contains c u v" for c
      using pick_not_larger [OF assms that Some] by blast
    with Some show ?thesis using pickBoxAt_Some [of bs u v b] by simp
  qed
next
  fix b1 b2
  assume h: "b1 \<in> set bs \<and> b2 \<in> set bs \<and> contains b1 u v \<and> contains b2 u v
              \<and> js_lt (b_area b1) (b_area b2)"
  then have "pickBoxAt bs u v \<noteq> None" by (auto simp: pickBoxAt_None)
  then obtain b where b: "pickBoxAt bs u v = Some b" by blast
  from pick_not_larger [OF assms _ _ b, of b1] h
  have small: "b = b1 \<or> js_le (b_area b) (b_area b1)" by simp
  have ne: "b \<noteq> b2"
  proof
    assume "b = b2"
    with small h have "js_le (b_area b2) (b_area b1)" by (auto simp: js_lt_irrefl)
    with h js_lt_not_le show False by blast
  qed
  have "b \<in> set bs \<and> contains b u v" using b pickBoxAt_Some [of bs u v b] by auto
  with ne have "(\<forall>c\<in>set bs. contains c u v \<longrightarrow> c = b1 \<or> c = b2) \<longrightarrow> b = b1" by blast
  with b small ne
  show "\<exists>b. pickBoxAt bs u v = Some b \<and> b \<noteq> b2
           \<and> (b = b1 \<or> js_le (b_area b) (b_area b1))
           \<and> ((\<forall>c\<in>set bs. contains c u v \<longrightarrow> c = b1 \<or> c = b2) \<longrightarrow> b = b1)" by blast
next
  show "sorted_wrt (\<lambda>a b. js_le (b_area a) (b_area b))
          (nextHitBoxes (buildHitBoxes production pageObj))"
    by (rule hitBoxes_sorted)
qed

theorem pickBoxAt_first_smallest_witness:
  "sorted_wrt (\<lambda>a b. js_le (b_area a) (b_area b)) [smallBox, largeBox]
   \<and> contains smallBox (Fin (3 / 8)) (Fin (5 / 16))
   \<and> contains largeBox (Fin (3 / 8)) (Fin (5 / 16))
   \<and> js_lt (b_area smallBox) (b_area largeBox)
   \<and> pickBoxAt [smallBox, largeBox] (Fin (3 / 8)) (Fin (5 / 16)) = Some smallBox
   \<and> pickBoxAt [smallBox, largeBox] (Fin (15 / 16)) (Fin (15 / 16)) = None"
proof -
  have s: "sorted_wrt (\<lambda>a b. js_le (b_area a) (b_area b)) [smallBox, largeBox]"
    by (simp add: smallBox_def largeBox_def js_le_def)
  have l: "js_lt (b_area smallBox) (b_area largeBox)"
    by (simp add: smallBox_def largeBox_def)
  have n: "pickBoxAt [smallBox, largeBox] (Fin (15 / 16)) (Fin (15 / 16)) = None"
    by (simp add: example_contains)
  have m: "smallBox \<in> set [smallBox, largeBox]" "largeBox \<in> set [smallBox, largeBox]"
    by simp_all
  have o: "\<forall>c\<in>set [smallBox, largeBox]. contains c (Fin (3 / 8)) (Fin (5 / 16))
             \<longrightarrow> c = smallBox \<or> c = largeBox"
    by simp
  from pickBoxAt_first_smallest [OF s, of "Fin (3 / 8)" "Fin (5 / 16)"] m example_contains(1,2) l
  have "\<exists>b. pickBoxAt [smallBox, largeBox] (Fin (3 / 8)) (Fin (5 / 16)) = Some b \<and> b \<noteq> largeBox
           \<and> (b = smallBox \<or> js_le (b_area b) (b_area smallBox))
           \<and> ((\<forall>c\<in>set [smallBox, largeBox]. contains c (Fin (3 / 8)) (Fin (5 / 16))
                  \<longrightarrow> c = smallBox \<or> c = largeBox) \<longrightarrow> b = smallBox)"
    by blast
  with o have "pickBoxAt [smallBox, largeBox] (Fin (3 / 8)) (Fin (5 / 16)) = Some smallBox"
    by blast
  with s l n example_contains(1,2) show ?thesis by simp
qed

text \<open>
  C2. Stated with the word exactly, the claim fails on the example it gives: the width and
  the height the code computes for bbox \<open>(100,50,300,90)\<close> on a \<open>1000\<close> by \<open>2000\<close> page are
  \<open>0.19999999999999998\<close> and \<open>0.019999999999999997\<close>, neither the number \<open>0.20\<close> or \<open>0.02\<close>
  nor the binary64 value of that literal. Read in exact arithmetic, the bound
  \<open>x + w \<le> 1\<close> fails as well: the retained box of bbox
  \<open>(128.00000000000003, 0, 1024, 64)\<close> on a \<open>1024\<close> by \<open>1024\<close> page has \<open>w = 0.875\<close> and
  an \<open>x\<close> above \<open>0.125\<close>.
\<close>

theorem normalizeBox_example_counterexample:
  "b_w (normalizeBox ''0-0'' lineBox (Fin 1000) (Fin 2000)) \<noteq> lit (20 / 100)
   \<and> b_w (normalizeBox ''0-0'' lineBox (Fin 1000) (Fin 2000)) \<noteq> Fin (20 / 100)
   \<and> b_h (normalizeBox ''0-0'' lineBox (Fin 1000) (Fin 2000)) \<noteq> lit (2 / 100)
   \<and> b_h (normalizeBox ''0-0'' lineBox (Fin 1000) (Fin 2000)) \<noteq> Fin (2 / 100)
   \<and> accepted (Fin 1024) (Fin 1024) (lineWith edgeBox)
   \<and> b_x (normalizeBox ''0-0'' edgeBox (Fin 1024) (Fin 1024)) = Fin (4503599627370497 / 36028797018963968)
   \<and> b_w (normalizeBox ''0-0'' edgeBox (Fin 1024) (Fin 1024)) = Fin (7 / 8)
   \<and> (1::rat) < 4503599627370497 / 36028797018963968 + 7 / 8"
  by (simp add: normalize_lineBox normalize_edgeBox accepted_edgeBox lits)

text \<open>
  C2, amended. For every raw bbox and page dimensions, all six finite and the dimensions
  positive, the normalised box has finite coordinates with \<open>0 \<le> x\<close>, \<open>0 \<le> y\<close>,
  \<open>0 \<le> w \<le> 1\<close>, \<open>0 \<le> h \<le> 1\<close>, and \<open>x + w \<le> 1\<close> and \<open>y + h \<le> 1\<close> as the program
  evaluates them, in binary64 arithmetic (the exact sums exceed \<open>1\<close> by at most
  \<open>2^-54\<close>); this holds for every box of the index. Bbox \<open>(100,50,300,90)\<close> on a
  \<open>1000\<close> by \<open>2000\<close> page yields \<open>x = 0.1\<close> and \<open>y = 0.025\<close> (the binary64 values of these
  literals), \<open>w = 0.19999999999999998\<close> and \<open>h = 0.019999999999999997\<close>, each within
  \<open>10^-16\<close> of \<open>0.10\<close>, \<open>0.025\<close>, \<open>0.20\<close> and \<open>0.02\<close>, and the box is retained.
\<close>

theorem normalizeBox_in_unit_square:
  "(\<not> badData bb pageW pageH \<longrightarrow>
      (\<exists>x y w h. normalizeBox u bb pageW pageH
            = \<lparr>b_uid = u, b_x = Fin x, b_y = Fin y, b_w = Fin w, b_h = Fin h,
               b_area = js_mul (Fin w) (Fin h)\<rparr>
          \<and> 0 \<le> x \<and> 0 \<le> y \<and> 0 \<le> w \<and> 0 \<le> h \<and> w \<le> 1 \<and> h \<le> 1
          \<and> x + w \<le> 1 + 1 / 2 ^ 54 \<and> y + h \<le> 1 + 1 / 2 ^ 54
          \<and> js_le (js_add (Fin x) (Fin w)) (Fin 1) \<and> js_le (js_add (Fin y) (Fin h)) (Fin 1)))
   \<and> (\<forall>b \<in> set (nextHitBoxes (buildHitBoxes production pageObj)).
          js_le (Fin 0) (b_x b) \<and> js_le (Fin 0) (b_y b)
          \<and> js_le (js_add (b_x b) (b_w b)) (Fin 1) \<and> js_le (js_add (b_y b) (b_h b)) (Fin 1))
   \<and> normalizeBox u lineBox (Fin 1000) (Fin 2000)
        = \<lparr>b_uid = u, b_x = lit (10 / 100), b_y = lit (25 / 1000),
           b_w = Fin (7205759403792793 / 36028797018963968),
           b_h = Fin (2882303761517117 / 144115188075855872),
           b_area = Fin (4611686018427387 / 1152921504606846976)\<rparr>
   \<and> lit (10 / 100) = Fin (3602879701896397 / 36028797018963968)
   \<and> lit (25 / 1000) = Fin (3602879701896397 / 144115188075855872)
   \<and> \<bar>3602879701896397 / 36028797018963968 - 10 / 100\<bar> < (1 / 10 ^ 16 :: rat)
   \<and> \<bar>3602879701896397 / 144115188075855872 - 25 / 1000\<bar> < (1 / 10 ^ 16 :: rat)
   \<and> \<bar>7205759403792793 / 36028797018963968 - 20 / 100\<bar> < (1 / 10 ^ 16 :: rat)
   \<and> \<bar>2882303761517117 / 144115188075855872 - 2 / 100\<bar> < (1 / 10 ^ 16 :: rat)
   \<and> nextHitBoxes (buildHitBoxes production (pageWith lineBox))
        = [normalizeBox ''0-0'' lineBox (Fin 1000) (Fin 2000)]"
proof -
  have general: "\<not> badData bb pageW pageH \<longrightarrow>
      (\<exists>x y w h. normalizeBox u bb pageW pageH
            = \<lparr>b_uid = u, b_x = Fin x, b_y = Fin y, b_w = Fin w, b_h = Fin h,
               b_area = js_mul (Fin w) (Fin h)\<rparr>
          \<and> 0 \<le> x \<and> 0 \<le> y \<and> 0 \<le> w \<and> 0 \<le> h \<and> w \<le> 1 \<and> h \<le> 1
          \<and> x + w \<le> 1 + 1 / 2 ^ 54 \<and> y + h \<le> 1 + 1 / 2 ^ 54
          \<and> js_le (js_add (Fin x) (Fin w)) (Fin 1) \<and> js_le (js_add (Fin y) (Fin h)) (Fin 1))"
    using normalizeBox_bounds [of bb pageW pageH u] by blast
  have index: "\<forall>b \<in> set (nextHitBoxes (buildHitBoxes production pageObj)).
          js_le (Fin 0) (b_x b) \<and> js_le (Fin 0) (b_y b)
          \<and> js_le (js_add (b_x b) (b_w b)) (Fin 1) \<and> js_le (js_add (b_y b) (b_h b)) (Fin 1)"
  proof
    fix b
    assume "b \<in> set (nextHitBoxes (buildHitBoxes production pageObj))"
    then have "b \<in># mset (nextHitBoxes (buildHitBoxes production pageObj))" by simp
    then obtain l where l: "accepted (width pageObj) (height pageObj) l"
        "b = normalizeBox (uid l) (bbox l) (width pageObj) (height pageObj)"
      unfolding buildHitBoxes_outputs(1) by auto
    from l(1) have "\<not> badData (bbox l) (width pageObj) (height pageObj)" by (simp add: accepted_def)
    from normalizeBox_bounds [OF this, of "uid l"] l(2)
    show "js_le (Fin 0) (b_x b) \<and> js_le (Fin 0) (b_y b)
          \<and> js_le (js_add (b_x b) (b_w b)) (Fin 1) \<and> js_le (js_add (b_y b) (b_h b)) (Fin 1)"
      by (auto simp: js_le_def)
  qed
  have ex: "normalizeBox u lineBox (Fin 1000) (Fin 2000)
        = \<lparr>b_uid = u, b_x = lit (10 / 100), b_y = lit (25 / 1000),
           b_w = Fin (7205759403792793 / 36028797018963968),
           b_h = Fin (2882303761517117 / 144115188075855872),
           b_area = Fin (4611686018427387 / 1152921504606846976)\<rparr>"
    by (simp add: normalize_lineBox lits)
  have l: "lit (10 / 100) = Fin (3602879701896397 / 36028797018963968)"
    "lit (25 / 1000) = Fin (3602879701896397 / 144115188075855872)"
    by (simp_all add: lits)
  have near: "\<bar>3602879701896397 / 36028797018963968 - 10 / 100\<bar> < (1 / 10 ^ 16 :: rat)"
    "\<bar>3602879701896397 / 144115188075855872 - 25 / 1000\<bar> < (1 / 10 ^ 16 :: rat)"
    "\<bar>7205759403792793 / 36028797018963968 - 20 / 100\<bar> < (1 / 10 ^ 16 :: rat)"
    "\<bar>2882303761517117 / 144115188075855872 - 2 / 100\<bar> < (1 / 10 ^ 16 :: rat)"
    by simp_all
  have kept: "nextHitBoxes (buildHitBoxes production (pageWith lineBox))
        = [normalizeBox ''0-0'' lineBox (Fin 1000) (Fin 2000)]"
    by (simp add: buildHitBoxes_def Let_def foldl_processLine_outputs getAllLinesForPage_pageWith
        processLine_accepted accepted_lineBox jsSort_def)
  from general index ex l near kept show ?thesis by blast
qed

theorem normalizeBox_in_unit_square_witness:
  "\<not> badData lineBox (Fin 1000) (Fin 2000)
   \<and> normalizeBox ''0-0'' lineBox (Fin 1000) (Fin 2000)
       \<in> set (nextHitBoxes (buildHitBoxes False (pageWith lineBox)))
   \<and> js_le (js_add (b_x (normalizeBox ''0-0'' lineBox (Fin 1000) (Fin 2000)))
                    (b_w (normalizeBox ''0-0'' lineBox (Fin 1000) (Fin 2000)))) (Fin 1)
   \<and> js_le (js_add (b_y (normalizeBox ''0-0'' lineBox (Fin 1000) (Fin 2000)))
                    (b_h (normalizeBox ''0-0'' lineBox (Fin 1000) (Fin 2000)))) (Fin 1)"
proof -
  note T = normalizeBox_in_unit_square [of lineBox "Fin 1000" "Fin 2000" "''0-0''" False "pageWith lineBox"]
  from T have m: "normalizeBox ''0-0'' lineBox (Fin 1000) (Fin 2000)
       \<in> set (nextHitBoxes (buildHitBoxes False (pageWith lineBox)))"
    by simp
  from T have "\<forall>b \<in> set (nextHitBoxes (buildHitBoxes False (pageWith lineBox))).
          js_le (Fin 0) (b_x b) \<and> js_le (Fin 0) (b_y b)
          \<and> js_le (js_add (b_x b) (b_w b)) (Fin 1) \<and> js_le (js_add (b_y b) (b_h b)) (Fin 1)"
    by blast
  with m good_example_data(1) show ?thesis by blast
qed

text \<open>
  C3. A line with valid data whose normalised box has \<open>w > 0\<close> and \<open>h > 0\<close> enters the
  hit-testing index if and only if none of the rejection conditions holds: \<open>h > 0.20\<close>,
  \<open>area > 0.25\<close>, \<open>w > 0.98\<close> and \<open>h > 0.50\<close>, \<open>w > 0.95\<close> and \<open>h > 0.95\<close>, \<open>w > 0.999\<close>,
  \<open>h > 0.999\<close>; a rejected line leaves the index as it is, and the index of a page
  holds the boxes of its accepted lines and no other. Bbox \<open>(0,0,999,1999)\<close> on a
  \<open>1000\<close> by \<open>2000\<close> page, with \<open>w\<close> the binary64 value of \<open>0.999\<close> and \<open>h\<close> that of
  \<open>0.9995\<close>, is rejected.
\<close>

theorem heuristic_filters:
  "(\<not> badData (bbox l) pageW pageH
    \<and> js_gt (b_w (normalizeBox (uid l) (bbox l) pageW pageH)) (Fin 0)
    \<and> js_gt (b_h (normalizeBox (uid l) (bbox l) pageW pageH)) (Fin 0)
    \<longrightarrow> (let b = normalizeBox (uid l) (bbox l) pageW pageH;
             rejected = (js_gt (b_h b) (lit (20 / 100)) \<or> js_gt (b_area b) (lit (25 / 100))
               \<or> (js_gt (b_w b) (lit (98 / 100)) \<and> js_gt (b_h b) (lit (50 / 100)))
               \<or> (js_gt (b_w b) (lit (95 / 100)) \<and> js_gt (b_h b) (lit (95 / 100)))
               \<or> js_gt (b_w b) (lit (999 / 1000)) \<or> js_gt (b_h b) (lit (999 / 1000)));
             st' = processLine production pageW pageH st l
         in (accepted pageW pageH l \<longleftrightarrow> \<not> rejected)
          \<and> ((nextHitBoxes st' = nextHitBoxes st @ [b] \<and> boxes st' (uid l) = Some (rectOf b))
                \<longleftrightarrow> \<not> rejected)
          \<and> (rejected \<longrightarrow> st' = st)))
   \<and> mset (nextHitBoxes (buildHitBoxes production pageObj))
       = mset (map (\<lambda>l. normalizeBox (uid l) (bbox l) (width pageObj) (height pageObj))
                (filter (accepted (width pageObj) (height pageObj)) (getAllLinesForPage pageObj)))
   \<and> \<not> badData pageBox (Fin 1000) (Fin 2000)
   \<and> b_w (normalizeBox (uid (lineWith pageBox)) pageBox (Fin 1000) (Fin 2000)) = lit (999 / 1000)
   \<and> b_h (normalizeBox (uid (lineWith pageBox)) pageBox (Fin 1000) (Fin 2000))
       = Fin (4501347827556811 / 4503599627370496)
   \<and> \<bar>4501347827556811 / 4503599627370496 - 9995 / 10000\<bar> < (1 / 10 ^ 16 :: rat)
   \<and> processLine production (Fin 1000) (Fin 2000) st (lineWith pageBox) = st
   \<and> nextHitBoxes (buildHitBoxes production (pageWith pageBox)) = []"
proof -
  let ?b = "normalizeBox (uid l) (bbox l) pageW pageH"
  let ?rej = "js_gt (b_h ?b) (lit (20 / 100)) \<or> js_gt (b_area ?b) (lit (25 / 100))
               \<or> (js_gt (b_w ?b) (lit (98 / 100)) \<and> js_gt (b_h ?b) (lit (50 / 100)))
               \<or> (js_gt (b_w ?b) (lit (95 / 100)) \<and> js_gt (b_h ?b) (lit (95 / 100)))
               \<or> js_gt (b_w ?b) (lit (999 / 1000)) \<or> js_gt (b_h ?b) (lit (999 / 1000))"
  let ?st = "processLine production pageW pageH st l"
  have general: "(accepted pageW pageH l \<longleftrightarrow> \<not> ?rej)
          \<and> ((nextHitBoxes ?st = nextHitBoxes st @ [?b] \<and> boxes ?st (uid l) = Some (rectOf ?b))
                \<longleftrightarrow> \<not> ?rej)
          \<and> (?rej \<longrightarrow> ?st = st)"
    if h: "\<not> badData (bbox l) pageW pageH \<and> js_gt (b_w ?b) (Fin 0) \<and> js_gt (b_h ?b) (Fin 0)"
  proof -
    from h have nd: "\<not> degenerate ?b"
      using js_lt_not_le [of "Fin 0" "b_w ?b"] js_lt_not_le [of "Fin 0" "b_h ?b"]
      by (simp add: degenerate_def js_gt_def)
    have o: "oversized ?b \<longleftrightarrow> ?rej" by (auto simp: oversized_def)
    from h nd o have a: "accepted pageW pageH l \<longleftrightarrow> \<not> ?rej" by (simp add: accepted_def)
    show ?thesis
      using a by (auto simp: processLine_accepted)
  qed
  have ex: "\<not> badData pageBox (Fin 1000) (Fin 2000)"
    "b_w (normalizeBox (uid (lineWith pageBox)) pageBox (Fin 1000) (Fin 2000)) = lit (999 / 1000)"
    "b_h (normalizeBox (uid (lineWith pageBox)) pageBox (Fin 1000) (Fin 2000))
       = Fin (4501347827556811 / 4503599627370496)"
    "\<bar>4501347827556811 / 4503599627370496 - 9995 / 10000\<bar> < (1 / 10 ^ 16 :: rat)"
    "processLine production (Fin 1000) (Fin 2000) st (lineWith pageBox) = st"
    "nextHitBoxes (buildHitBoxes production (pageWith pageBox)) = []"
    by (simp_all add: good_example_data normalize_pageBox lits processLine_accepted rejected_pageBox
        buildHitBoxes_def Let_def getAllLinesForPage_pageWith jsSort_def)
  note index = buildHitBoxes_outputs(1) [of production pageObj]
  from general index ex show ?thesis unfolding Let_def by blast
qed

theorem heuristic_filters_witness:
  "\<not> badData (bbox (lineWith lineBox)) (Fin 1000) (Fin 2000)
   \<and> js_gt (b_w (normalizeBox (uid (lineWith lineBox)) (bbox (lineWith lineBox)) (Fin 1000) (Fin 2000))) (Fin 0)
   \<and> js_gt (b_h (normalizeBox (uid (lineWith lineBox)) (bbox (lineWith lineBox)) (Fin 1000) (Fin 2000))) (Fin 0)
   \<and> accepted (Fin 1000) (Fin 2000) (lineWith lineBox)
   \<and> nextHitBoxes (processLine False (Fin 1000) (Fin 2000)
         \<lparr>boxes = Map.empty, nextHitBoxes = [], console = []\<rparr> (lineWith lineBox))
       = [normalizeBox ''0-0'' lineBox (Fin 1000) (Fin 2000)]
   \<and> \<not> badData (bbox (lineWith pageBox)) (Fin 1000) (Fin 2000)
   \<and> js_gt (b_w (normalizeBox (uid (lineWith pageBox)) (bbox (lineWith pageBox)) (Fin 1000) (Fin 2000))) (Fin 0)
   \<and> js_gt (b_h (normalizeBox (uid (lineWith pageBox)) (bbox (lineWith pageBox)) (Fin 1000) (Fin 2000))) (Fin 0)
   \<and> js_gt (b_h (normalizeBox (uid (lineWith pageBox)) (bbox (lineWith pageBox)) (Fin 1000) (Fin 2000)))
        (lit (20 / 100))
   \<and> \<not> accepted (Fin 1000) (Fin 2000) (lineWith pageBox)"
proof -
  have h1: "\<not> badData (bbox (lineWith lineBox)) (Fin 1000) (Fin 2000)
   \<and> js_gt (b_w (normalizeBox (uid (lineWith lineBox)) (bbox (lineWith lineBox)) (Fin 1000) (Fin 2000))) (Fin 0)
   \<and> js_gt (b_h (normalizeBox (uid (lineWith lineBox)) (bbox (lineWith lineBox)) (Fin 1000) (Fin 2000))) (Fin 0)"
    by (simp add: good_example_data normalize_lineBox js_gt_def)
  have h2: "\<not> badData (bbox (lineWith pageBox)) (Fin 1000) (Fin 2000)
   \<and> js_gt (b_w (normalizeBox (uid (lineWith pageBox)) (bbox (lineWith pageBox)) (Fin 1000) (Fin 2000))) (Fin 0)
   \<and> js_gt (b_h (normalizeBox (uid (lineWith pageBox)) (bbox (lineWith pageBox)) (Fin 1000) (Fin 2000))) (Fin 0)"
    by (simp add: good_example_data normalize_pageBox js_gt_def)
  have r: "js_gt (b_h (normalizeBox (uid (lineWith pageBox)) (bbox (lineWith pageBox)) (Fin 1000) (Fin 2000)))
        (lit (20 / 100))"
    by (simp add: normalize_pageBox lits js_gt_def)
  note T1 = heuristic_filters [of "lineWith lineBox" "Fin 1000" "Fin 2000" False
      "\<lparr>boxes = Map.empty, nextHitBoxes = [], console = []\<rparr>"]
  note T2 = heuristic_filters [of "lineWith pageBox" "Fin 1000" "Fin 2000" False
      "\<lparr>boxes = Map.empty, nextHitBoxes = [], console = []\<rparr>"]
  from T2 h2 r have n: "\<not> accepted (Fin 1000) (Fin 2000) (lineWith pageBox)"
    unfolding Let_def by blast
  have a: "accepted (Fin 1000) (Fin 2000) (lineWith lineBox)" by (rule accepted_lineBox)
  from T1 h1 a have "nextHitBoxes (processLine False (Fin 1000) (Fin 2000)
         \<lparr>boxes = Map.empty, nextHitBoxes = [], console = []\<rparr> (lineWith lineBox))
       = nextHitBoxes \<lparr>boxes = Map.empty, nextHitBoxes = [], console = []\<rparr>
         @ [normalizeBox (uid (lineWith lineBox)) (bbox (lineWith lineBox)) (Fin 1000) (Fin 2000)]"
    unfolding Let_def by blast
  then have k: "nextHitBoxes (processLine False (Fin 1000) (Fin 2000)
         \<lparr>boxes = Map.empty, nextHitBoxes = [], console = []\<rparr> (lineWith lineBox))
       = [normalizeBox ''0-0'' lineBox (Fin 1000) (Fin 2000)]"
    by simp
  from h1 h2 r n a k show ?thesis by blast
qed

text \<open>
  C4. Stated as it is, the claim fails: the line with bbox \<open>(0,0,999,1999)\<close> is rejected,
  outside a production build, and the console stays empty.
\<close>

theorem rejected_line_silent_counterexample:
  "getAllLinesForPage (pageWith pageBox) = [lineWith pageBox]
   \<and> \<not> accepted (Fin 1000) (Fin 2000) (lineWith pageBox)
   \<and> nextHitBoxes (buildHitBoxes False (pageWith pageBox)) = []
   \<and> console (buildHitBoxes False (pageWith pageBox)) = []"
  by (simp add: getAllLinesForPage_pageWith rejected_pageBox buildHitBoxes_def Let_def
      processLine_accepted jsSort_def)

text \<open>
  C4, amended. A line rejected by the validity checks or by the heuristic filters is
  dropped from the hit-testing index without any record: the loop gives the index, the
  box lookup and the console it would give if the line were absent, and the console
  holds nothing but the warnings of accepted lines (none in a production build). The
  rejected line is still among the lines of the transcript pane, and the loop has no
  error exit.
\<close>

theorem rejected_lines_leave_no_record:
  "(\<not> accepted pageW pageH l \<longrightarrow> processLine production pageW pageH st l = st)
   \<and> foldl (processLine production pageW pageH) st ls
       = foldl (processLine production pageW pageH) st (filter (accepted pageW pageH) ls)
   \<and> console (buildHitBoxes production pageObj)
       = concat (map (warningsFor production (width pageObj) (height pageObj))
           (filter (accepted (width pageObj) (height pageObj)) (getAllLinesForPage pageObj)))
   \<and> (production \<longrightarrow> console (buildHitBoxes production pageObj) = [])
   \<and> transcriptLines pageObj = getAllLinesForPage pageObj
   \<and> (\<forall>r \<in> set (getAllLinesForPage pageObj).
         \<not> accepted (width pageObj) (height pageObj) r \<longrightarrow> r \<in> set (transcriptLines pageObj))"
proof -
  have p: "production \<longrightarrow> console (buildHitBoxes production pageObj) = []"
    by (simp add: buildHitBoxes_outputs warningsFor_def Let_def)
  show ?thesis
    using p foldl_processLine_filter [of production pageW pageH st ls]
    by (simp add: processLine_accepted buildHitBoxes_outputs transcriptLines_def)
qed

theorem rejected_lines_leave_no_record_witness:
  "\<not> accepted (Fin 1000) (Fin 2000) (lineWith pageBox)
   \<and> processLine False (Fin 1000) (Fin 2000) \<lparr>boxes = Map.empty, nextHitBoxes = [], console = []\<rparr>
        (lineWith pageBox) = \<lparr>boxes = Map.empty, nextHitBoxes = [], console = []\<rparr>
   \<and> lineWith pageBox \<in> set (getAllLinesForPage (pageWith pageBox))
   \<and> \<not> accepted (width (pageWith pageBox)) (height (pageWith pageBox)) (lineWith pageBox)
   \<and> lineWith pageBox \<in> set (transcriptLines (pageWith pageBox))
   \<and> console (buildHitBoxes True (pageWith lineBox)) = []"
proof -
  note T = rejected_lines_leave_no_record [of "Fin 1000" "Fin 2000" "lineWith pageBox" False
      "\<lparr>boxes = Map.empty, nextHitBoxes = [], console = []\<rparr>" "[]" "pageWith pageBox"]
  have n: "\<not> accepted (Fin 1000) (Fin 2000) (lineWith pageBox)" by (rule rejected_pageBox(3))
  have m: "lineWith pageBox \<in> set (getAllLinesForPage (pageWith pageBox))"
    by (simp add: getAllLinesForPage_pageWith)
  from T n have a: "processLine False (Fin 1000) (Fin 2000) \<lparr>boxes = Map.empty, nextHitBoxes = [], console = []\<rparr>
        (lineWith pageBox) = \<lparr>boxes = Map.empty, nextHitBoxes = [], console = []\<rparr>"
    by blast
  from T m n have b: "lineWith pageBox \<in> set (transcriptLines (pageWith pageBox))"
    by simp
  from rejected_lines_leave_no_record [of "Fin 1000" "Fin 2000" "lineWith pageBox" True
      "\<lparr>boxes = Map.empty, nextHitBoxes = [], console = []\<rparr>" "[]" "pageWith lineBox"]
  have c: "console (buildHitBoxes True (pageWith lineBox)) = []" by blast
  from n a m b c show ?thesis by simp
qed

text \<open>
  C5. In the mode \<open>top\<close> (the default) the suggestions of a line are ranked by vote count
  descending, ties by newest \<open>created_at\<close> first; in the mode \<open>newest\<close> by \<open>created_at\<close>
  descending, whatever the vote counts are. The ranking is a rearrangement of the stored
  list. A (3 votes, 10:00), B (3 votes, 10:05) and C (1 vote, 10:10) rank as B, A, C
  under \<open>top\<close>.
\<close>

theorem getSortedSuggestions_ranked:
  "(let res = getSortedSuggestions getTime suggestionsByUid sortModeByUid u;
        arr = (case suggestionsByUid u of None \<Rightarrow> [] | Some xs \<Rightarrow> xs);
        tm = (\<lambda>a. getTime (s_created_at a))
    in mset res = mset arr
       \<and> (sortModeByUid u = Some Newest \<longrightarrow> sorted_wrt (\<lambda>a b. tm b \<le> tm a) res)
       \<and> (sortModeByUid u = Some Newest \<longrightarrow>
            (\<forall>f. getSortedSuggestions getTime
                    (suggestionsByUid(u \<mapsto> map (\<lambda>a. a\<lparr>s_vote_count := f a\<rparr>) arr)) sortModeByUid u
                  = map (\<lambda>a. a\<lparr>s_vote_count := f a\<rparr>) res))
       \<and> (sortModeByUid u \<noteq> Some Newest \<longrightarrow>
            sorted_wrt (\<lambda>a b. votes b < votes a \<or> (votes a = votes b \<and> tm b \<le> tm a)) res))
   \<and> getSortedSuggestions clockTime threeSuggestions Map.empty ''2-5''
       = [exampleSuggestion ''B'' 3 ''10:05'', exampleSuggestion ''A'' 3 ''10:00'',
          exampleSuggestion ''C'' 1 ''10:10'']"
proof -
  have n: "sorted_wrt (\<lambda>a b. \<not> 0 < newestCmp getTime a b) (jsSort (\<lambda>a b. 0 < newestCmp getTime a b) xs)" for xs
    by (rule sorted_wrt_jsSort) (auto simp: newestCmp_def)
  have t: "sorted_wrt (\<lambda>a b. \<not> 0 < topCmp getTime a b) (jsSort (\<lambda>a b. 0 < topCmp getTime a b) xs)" for xs
    by (rule sorted_wrt_jsSort) (auto simp: topCmp_def Let_def split: if_splits)
  have n': "(\<lambda>a b. \<not> 0 < newestCmp getTime a b) = (\<lambda>a b. getTime (s_created_at b) \<le> getTime (s_created_at a))"
    by (auto simp: newestCmp_def fun_eq_iff)
  have t': "(\<lambda>a b. \<not> 0 < topCmp getTime a b) =
     (\<lambda>a b. votes b < votes a \<or> (votes a = votes b \<and> getTime (s_created_at b) \<le> getTime (s_created_at a)))"
    by (auto simp: topCmp_def fun_eq_iff Let_def)
  have i: "jsSort (\<lambda>a b. 0 < newestCmp getTime a b) (map (\<lambda>a. a\<lparr>s_vote_count := f a\<rparr>) xs)
      = map (\<lambda>a. a\<lparr>s_vote_count := f a\<rparr>) (jsSort (\<lambda>a b. 0 < newestCmp getTime a b) xs)" for f xs
    by (rule jsSort_map) (simp add: newestCmp_def)
  have general: "(let res = getSortedSuggestions getTime suggestionsByUid sortModeByUid u;
        arr = (case suggestionsByUid u of None \<Rightarrow> [] | Some xs \<Rightarrow> xs);
        tm = (\<lambda>a. getTime (s_created_at a))
    in mset res = mset arr
       \<and> (sortModeByUid u = Some Newest \<longrightarrow> sorted_wrt (\<lambda>a b. tm b \<le> tm a) res)
       \<and> (sortModeByUid u = Some Newest \<longrightarrow>
            (\<forall>f. getSortedSuggestions getTime
                    (suggestionsByUid(u \<mapsto> map (\<lambda>a. a\<lparr>s_vote_count := f a\<rparr>) arr)) sortModeByUid u
                  = map (\<lambda>a. a\<lparr>s_vote_count := f a\<rparr>) res))
       \<and> (sortModeByUid u \<noteq> Some Newest \<longrightarrow>
            sorted_wrt (\<lambda>a b. votes b < votes a \<or> (votes a = votes b \<and> tm b \<le> tm a)) res))"
    using n t i unfolding n' t'
    by (cases "sortModeByUid u") (auto simp: getSortedSuggestions_def Let_def mset_jsSort split: sort_mode.splits)
  have example: "getSortedSuggestions clockTime threeSuggestions Map.empty ''2-5''
       = [exampleSuggestion ''B'' 3 ''10:05'', exampleSuggestion ''A'' 3 ''10:00'',
          exampleSuggestion ''C'' 1 ''10:10'']"
    by (simp add: getSortedSuggestions_def jsSort_def topCmp_def votes_def threeSuggestions_def
        exampleSuggestion_def clock_examples)
  from general example show ?thesis by (rule conjI)
qed


theorem getSortedSuggestions_ranked_witness:
  "Map.empty ''2-5'' \<noteq> Some Newest
   \<and> [''2-5'' \<mapsto> Newest] ''2-5'' = Some Newest
   \<and> getSortedSuggestions clockTime threeSuggestions [''2-5'' \<mapsto> Newest] ''2-5''
       = [exampleSuggestion ''C'' 1 ''10:10'', exampleSuggestion ''B'' 3 ''10:05'',
          exampleSuggestion ''A'' 3 ''10:00'']
   \<and> sorted_wrt (\<lambda>a b. clockTime (s_created_at b) \<le> clockTime (s_created_at a))
        (getSortedSuggestions clockTime threeSuggestions [''2-5'' \<mapsto> Newest] ''2-5'')
   \<and> sorted_wrt (\<lambda>a b. votes b < votes a
          \<or> (votes a = votes b \<and> clockTime (s_created_at b) \<le> clockTime (s_created_at a)))
        (getSortedSuggestions clockTime threeSuggestions Map.empty ''2-5'')"
proof -
  have e: "getSortedSuggestions clockTime threeSuggestions [''2-5'' \<mapsto> Newest] ''2-5''
       = [exampleSuggestion ''C'' 1 ''10:10'', exampleSuggestion ''B'' 3 ''10:05'',
          exampleSuggestion ''A'' 3 ''10:00'']"
    by (simp add: getSortedSuggestions_def jsSort_def newestCmp_def threeSuggestions_def
        exampleSuggestion_def clock_examples)
  from conjunct1 [OF getSortedSuggestions_ranked [of clockTime threeSuggestions "[''2-5'' \<mapsto> Newest]" "''2-5''"]]
  have n: "sorted_wrt (\<lambda>a b. clockTime (s_created_at b) \<le> clockTime (s_created_at a))
        (getSortedSuggestions clockTime threeSuggestions [''2-5'' \<mapsto> Newest] ''2-5'')"
    by (simp add: Let_def)
  from conjunct1 [OF getSortedSuggestions_ranked [of clockTime threeSuggestions Map.empty "''2-5''"]]
  have t: "sorted_wrt (\<lambda>a b. votes b < votes a
          \<or> (votes a = votes b \<and> clockTime (s_created_at b) \<le> clockTime (s_created_at a)))
        (getSortedSuggestions clockTime threeSuggestions Map.empty ''2-5'')"
    by (simp add: Let_def)
  from e n t show ?thesis by simp
qed

text \<open>
  C6. The leaderboard counts the vote rows whose value is \<open>1\<close>, by the author of the
  suggestion voted on (the rows carry no voter): each row shows the number of upvotes on
  all suggestions of its author, the rows are in descending order of that number, there
  are at most ten of them, one per author, and an author left out has no more upvotes
  than any author shown. Three upvotes on two suggestions of one author show as \<open>3\<close>.
\<close>

theorem leaderboard_counts:
  "(let lb = loadLeaderboard (Some rows) profiles in
      length lb \<le> 10
    \<and> sorted_wrt (\<lambda>a b. lb_upvotes b \<le> lb_upvotes a) lb
    \<and> distinct (map lb_user_id lb)
    \<and> (\<forall>r \<in> set lb. lb_user_id r \<noteq> [] \<and> 1 \<le> lb_upvotes r
          \<and> lb_upvotes r = int (length (upvoteRowsOf (lb_user_id r) rows)))
    \<and> (\<forall>u. u \<noteq> [] \<and> upvoteRowsOf u rows \<noteq> [] \<and> u \<notin> set (map lb_user_id lb)
          \<longrightarrow> length lb = 10
              \<and> (\<forall>r \<in> set lb. int (length (upvoteRowsOf u rows)) \<le> lb_upvotes r)))
   \<and> upvoteRowsOf ''X'' exampleVotes = [voteFor 1 ''X'' [], voteFor 1 ''X'' '' xavier '', voteFor 1 ''X'' ''xav'']
   \<and> map (\<lambda>r. (lb_user_id r, lb_upvotes r)) (loadLeaderboard (Some exampleVotes) profiles) = [(''X'', 3)]"
proof -
  let ?lb = "loadLeaderboard (Some rows) profiles"
  let ?top = "leaderboardTop rows"
  note P = leaderboardTop_props [where rows = rows]
  note I = loadLeaderboard_ids [where rows = rows and profiles = profiles]
  have len: "length ?lb \<le> 10" using P(1) I(1) by (metis length_map)
  have "sorted_wrt (\<lambda>a b. b \<le> a) (map lb_upvotes ?top)"
    using P(2) by (simp add: sorted_wrt_map)
  then have "sorted_wrt (\<lambda>a b. b \<le> a) (map lb_upvotes ?lb)" by (simp only: I(2))
  then have srt: "sorted_wrt (\<lambda>a b. lb_upvotes b \<le> lb_upvotes a) ?lb" by (simp add: sorted_wrt_map)
  have dis: "distinct (map lb_user_id ?lb)" using P(3) by (simp only: I(1))
  have row: "lb_user_id r \<noteq> [] \<and> 1 \<le> lb_upvotes r
          \<and> lb_upvotes r = int (length (upvoteRowsOf (lb_user_id r) rows))" if "r \<in> set ?lb" for r
  proof -
    from that obtain r0 where r0: "r0 \<in> set ?top" "lb_user_id r = lb_user_id r0" "lb_upvotes r = lb_upvotes r0"
      by (auto simp: loadLeaderboard_rows split: option.splits)
    from P(4) [OF r0(1)] have "totalFor (lb_user_id r0) rows \<noteq> None"
      and "lb_upvotes r0 = int (length (upvoteRowsOf (lb_user_id r0) rows))"
      by (auto simp: totalFor_def split: if_splits)
    then show ?thesis using r0(2,3)
      by (auto simp: totalFor_def split: if_splits) (metis length_greater_0_conv less_eq_Suc_le of_nat_1 of_nat_le_iff One_nat_def)
  qed
  have rest: "length ?lb = 10 \<and> (\<forall>r \<in> set ?lb. int (length (upvoteRowsOf u rows)) \<le> lb_upvotes r)"
    if h: "u \<noteq> [] \<and> upvoteRowsOf u rows \<noteq> [] \<and> u \<notin> set (map lb_user_id ?lb)" for u
  proof -
    from h have t: "totalFor u rows \<noteq> None" by (simp add: totalFor_def)
    from h have n: "u \<notin> set (map lb_user_id ?top)" by (simp only: I(1)) simp
    have l: "length ?lb = 10" using P(5) [OF t n] I(1) by (metis length_map)
    have "int (length (upvoteRowsOf u rows)) \<le> lb_upvotes r" if "r \<in> set ?lb" for r
    proof -
      from that obtain r0 where r0: "r0 \<in> set ?top" "lb_upvotes r = lb_upvotes r0"
        by (auto simp: loadLeaderboard_rows split: option.splits)
      with P(5) [OF t n, of r0] show ?thesis by simp
    qed
    with l show ?thesis by blast
  qed
  have ex1: "upvoteRowsOf ''X'' exampleVotes = [voteFor 1 ''X'' [], voteFor 1 ''X'' '' xavier '', voteFor 1 ''X'' ''xav'']"
    by (simp add: upvoteRowsOf_def exampleVotes_def voteFor_def voteOf_def authorOf_def orEmpty_def)
  have "map lb_user_id (loadLeaderboard (Some exampleVotes) profiles) = [''X'']"
    "map lb_upvotes (loadLeaderboard (Some exampleVotes) profiles) = [3]"
    unfolding loadLeaderboard_ids by code_simp+
  then have ex2: "map (\<lambda>r. (lb_user_id r, lb_upvotes r)) (loadLeaderboard (Some exampleVotes) profiles) = [(''X'', 3)]"
    by (cases "loadLeaderboard (Some exampleVotes) profiles") auto
  from len srt dis row rest ex1 ex2 show ?thesis unfolding Let_def by blast
qed


theorem leaderboard_counts_witness:
  "loadLeaderboard (Some exampleVotes) failingProfiles
     = [\<lparr>lb_user_id = ''X'', lb_upvotes = 3, lb_username = ''xavier''\<rparr>]
   \<and> \<lparr>lb_user_id = ''X'', lb_upvotes = 3, lb_username = ''xavier''\<rparr>
       \<in> set (loadLeaderboard (Some exampleVotes) failingProfiles)
   \<and> (3::int) = int (length (upvoteRowsOf ''X'' exampleVotes))
   \<and> ''k'' \<noteq> [] \<and> upvoteRowsOf ''k'' elevenVotes \<noteq> []
   \<and> ''k'' \<notin> set (map lb_user_id (loadLeaderboard (Some elevenVotes) failingProfiles))
   \<and> length (loadLeaderboard (Some elevenVotes) failingProfiles) = 10
   \<and> map lb_upvotes (loadLeaderboard (Some elevenVotes) failingProfiles) = [1, 1, 1, 1, 1, 1, 1, 1, 1, 1]"
proof -
  have k: "''k'' \<noteq> [] \<and> upvoteRowsOf ''k'' elevenVotes \<noteq> []
      \<and> ''k'' \<notin> set (map lb_user_id (loadLeaderboard (Some elevenVotes) failingProfiles))"
    by code_simp
  have u: "map lb_upvotes (loadLeaderboard (Some elevenVotes) failingProfiles) = [1, 1, 1, 1, 1, 1, 1, 1, 1, 1]"
    by code_simp
  from leaderboard_counts [of elevenVotes failingProfiles] k
  have l: "length (loadLeaderboard (Some elevenVotes) failingProfiles) = 10"
    unfolding Let_def by blast
  from leaderboard_counts [of exampleVotes failingProfiles]
  have "\<forall>r \<in> set (loadLeaderboard (Some exampleVotes) failingProfiles).
          lb_upvotes r = int (length (upvoteRowsOf (lb_user_id r) exampleVotes))"
    unfolding Let_def by blast
  then have "(3::int) = int (length (upvoteRowsOf ''X'' exampleVotes))"
    by (simp add: example_leaderboards)
  with k u l example_leaderboards(1) show ?thesis by simp
qed

text \<open>
  C7. Stated for every click that hits a box, the claim fails: when the line of the box
  is already active and its suggestions are collapsed, the click expands them.
\<close>

theorem onHitSvgClick_collapse_counterexample:
  "pickBoxAt (hitBoxes collapsedState) (clamp01 (pointU pointerInside)) (clamp01 (pointV pointerInside))
     = Some smallBox
   \<and> activeId collapsedState = Some (b_uid smallBox)
   \<and> \<not> isCollapsed (collapsedUid (onHitSvgClick pointerInside collapsedState)) (b_uid smallBox)"
proof -
  have p: "pickBoxAt (hitBoxes collapsedState) (clamp01 (pointU pointerInside))
             (clamp01 (pointV pointerInside)) = Some smallBox"
    by (simp add: collapsedState_def idleState_def example_points example_contains)
  have a: "activeId collapsedState = Some (b_uid smallBox)"
    by (simp add: collapsedState_def smallBox_def)
  have k: "\<not> isDragging collapsedState" "\<not> noTranscription collapsedState"
    by (simp_all add: collapsedState_def idleState_def noTranscription_def)
  have c: "collapsedUid collapsedState (b_uid smallBox) = Some True"
    by (simp add: collapsedState_def smallBox_def)
  have "\<not> isCollapsed (collapsedUid (onHitSvgClick pointerInside collapsedState)) (b_uid smallBox)"
    by (subst click_hit_eq [OF k example_rects(1) p])
      (simp add: toggleCollapsed_def isCollapsed_def a c)
  with p a show ?thesis by simp
qed

text \<open>
  C7, amended. A click on the rendered page that hits a box with identifier \<open>uid\<close>, while
  no drag is under way and the page has a transcription, makes \<open>uid\<close> the active line with
  source \<open>left\<close> (the page), reveals the suggestions, and sets the flag of \<open>uid\<close> to
  expanded if another line or none was active, and to the opposite of its value if
  \<open>uid\<close> was already active. A second click at the same point flips the flag again:
  after a first click that made \<open>uid\<close> active the flag goes from expanded to collapsed.
\<close>

theorem onHitSvgClick_hit:
  assumes "\<not> isDragging s" "\<not> noTranscription s" "\<not> emptyRect e"
    and "pickBoxAt (hitBoxes s) (clamp01 (pointU e)) (clamp01 (pointV e)) = Some picked"
  shows "(let s1 = onHitSvgClick e s; s2 = onHitSvgClick e s1; u = b_uid picked in
         activeId s1 = Some u \<and> activeSource s1 = Some SrcLeft \<and> activeBox s1 = boxByUid s u
       \<and> collapseSuggestions s1 = False
       \<and> isCollapsed (collapsedUid s1) u = (if activeId s = Some u then \<not> isCollapsed (collapsedUid s) u else False)
       \<and> isCollapsed (collapsedUid s2) u = (\<not> isCollapsed (collapsedUid s1) u)
       \<and> (activeId s \<noteq> Some u \<longrightarrow> \<not> isCollapsed (collapsedUid s1) u \<and> isCollapsed (collapsedUid s2) u))"
proof -
  let ?u = "b_uid picked"
  let ?s1 = "onHitSvgClick e s"
  note s1 = click_hit_eq [OF assms]
  have k1: "\<not> isDragging ?s1" using assms(1) by (simp add: s1)
  have k2: "\<not> noTranscription ?s1"
    using assms(2) by (simp add: s1 noTranscription_def split: option.splits)
  have k3: "pickBoxAt (hitBoxes ?s1) (clamp01 (pointU e)) (clamp01 (pointV e)) = Some picked"
    using assms(4) by (simp add: s1)
  have a1: "activeId ?s1 = Some ?u" by (simp add: s1)
  note s2 = click_hit_eq [OF k1 k2 assms(3) k3]
  have f1: "isCollapsed (collapsedUid ?s1) ?u =
      (if activeId s = Some ?u then \<not> isCollapsed (collapsedUid s) ?u else False)"
    by (simp add: s1 toggleCollapsed_def isCollapsed_def)
  have f2: "isCollapsed (collapsedUid (onHitSvgClick e ?s1)) ?u = (\<not> isCollapsed (collapsedUid ?s1) ?u)"
    by (subst s2) (simp add: a1 toggleCollapsed_def isCollapsed_def)
  have g: "activeSource ?s1 = Some SrcLeft" "activeBox ?s1 = boxByUid s ?u" "collapseSuggestions ?s1 = False"
    by (simp_all add: s1)
  show ?thesis
    unfolding Let_def using f1 f2 a1 g by simp
qed



theorem onHitSvgClick_hit_witness:
  "\<not> isDragging idleState \<and> \<not> noTranscription idleState \<and> \<not> emptyRect pointerInside
   \<and> pickBoxAt (hitBoxes idleState) (clamp01 (pointU pointerInside)) (clamp01 (pointV pointerInside))
       = Some smallBox
   \<and> activeId idleState \<noteq> Some (b_uid smallBox)
   \<and> activeId (onHitSvgClick pointerInside idleState) = Some ''2-5''
   \<and> activeSource (onHitSvgClick pointerInside idleState) = Some SrcLeft
   \<and> \<not> collapseSuggestions (onHitSvgClick pointerInside idleState)
   \<and> \<not> isCollapsed (collapsedUid (onHitSvgClick pointerInside idleState)) ''2-5''
   \<and> isCollapsed (collapsedUid (onHitSvgClick pointerInside (onHitSvgClick pointerInside idleState))) ''2-5''"
proof -
  have h: "\<not> isDragging idleState" "\<not> noTranscription idleState" "\<not> emptyRect pointerInside"
    "pickBoxAt (hitBoxes idleState) (clamp01 (pointU pointerInside)) (clamp01 (pointV pointerInside))
       = Some smallBox"
    by (simp_all add: idleState_def noTranscription_def example_rects example_points example_contains)
  have a: "activeId idleState \<noteq> Some (b_uid smallBox)" "b_uid smallBox = ''2-5''"
    by (simp_all add: idleState_def smallBox_def)
  from onHitSvgClick_hit [OF h] a h show ?thesis
    by (simp add: Let_def)
qed

text \<open>
  C8. Stated as it is, the claim fails: a key without a page number is sorted in front of
  the numbered keys, not behind them.
\<close>

theorem pageKeys_unnumbered_first_counterexample:
  "pageKeyToNumber ''cover'' = None \<and> pageKeyToNumber ''doc_page_1'' = Some 1
   \<and> map fst twoKeyDoc = [''doc_page_1'', ''cover'']
   \<and> pageKeys (Some twoKeyDoc) None = [''cover'', ''doc_page_1'']"
  by (simp add: key_examples pageKeys_def twoKeyDoc_def objectEntries_def key_example_sort)

text \<open>
  C8, amended. In the sort of the page list a key without a recoverable page number
  counts as page \<open>0\<close>: the sorted list is ascending in that number and keeps the order
  of keys with equal numbers, so no key without a number comes behind a key with a
  number of at least \<open>1\<close>. Such keys are excluded from numeric navigation: once the PDF
  is loaded, the page list has one key for each page \<open>1\<close> to \<open>numPages\<close>, and the key at
  page \<open>i\<close> has the recoverable number \<open>i\<close>.
\<close>

theorem pageKeys_order:
  "sorted (map numberOrZero (sortPageKeys ks)) \<and> mset (sortPageKeys ks) = mset ks
   \<and> (\<forall>n. filter (\<lambda>k. numberOrZero k = n) (sortPageKeys ks) = filter (\<lambda>k. numberOrZero k = n) ks)
   \<and> (\<forall>pre a mid b post. sortPageKeys ks = pre @ a # mid @ b # post \<and> pageKeyToNumber b = None
         \<longrightarrow> pageKeyToNumber a = None \<or> pageKeyToNumber a = Some 0)
   \<and> pageKeys (Some entries) None = sortPageKeys (map fst (objectEntries entries))
   \<and> length (pageKeys (Some entries) (Some (Suc n))) = Suc n
   \<and> (\<forall>i. i < Suc n \<longrightarrow> pageKeyToNumber (pageKeys (Some entries) (Some (Suc n)) ! i) = Some (Suc i))
   \<and> (\<forall>k \<in> set (pageKeys (Some entries) (Some (Suc n))). pageKeyToNumber k \<noteq> None)"
proof -
  have s: "sorted (map numberOrZero (sortPageKeys ks))"
    by (simp add: sortPageKeys_sort_key)
  have m: "mset (sortPageKeys ks) = mset ks"
    by (simp add: sortPageKeys_sort_key)
  have st: "filter (\<lambda>k. numberOrZero k = n) (sortPageKeys ks) = filter (\<lambda>k. numberOrZero k = n) ks" for n
    by (simp add: sortPageKeys_sort_key sort_key_stable)
  have o: "pageKeyToNumber a = None \<or> pageKeyToNumber a = Some 0"
    if h: "sortPageKeys ks = pre @ a # mid @ b # post" "pageKeyToNumber b = None" for pre a mid b post
  proof -
    from s h(1) have "numberOrZero a \<le> numberOrZero b"
      by (simp add: sorted_append)
    with h(2) show ?thesis by (auto simp: numberOrZero_def split: option.splits)
  qed
  let ?ks = "map fst (objectEntries entries)"
  let ?nav = "pageKeys (Some entries) (Some (Suc n))"
  let ?f = "\<lambda>i. case docKeyByNum ?ks i of Some k \<Rightarrow> k | None \<Rightarrow> ''pdf_only_page_'' @ showNat i"
  have nav: "?nav = map ?f [1 ..< Suc (Suc n)]"
    by (simp add: pageKeys_def Let_def)
  have f: "pageKeyToNumber (?f i) = Some i" for i
  proof (cases "docKeyByNum ?ks i")
    case None
    then show ?thesis using pageKeyToNumber_showNat [of "''pdf_only''" i] by simp
  next
    case (Some k)
    then show ?thesis using docKeyByNum_sound [of ?ks i k] by simp
  qed
  have len: "length ?nav = Suc n" unfolding nav by simp
  have nth: "pageKeyToNumber (?nav ! i) = Some (Suc i)" if "i < Suc n" for i
  proof -
    have idx: "[1 ..< Suc (Suc n)] ! i = Suc i"
      using that by (simp del: upt_Suc)
    have "i < length [1 ..< Suc (Suc n)]" using that by (simp del: upt_Suc)
    then have "?nav ! i = ?f ([1 ..< Suc (Suc n)] ! i)"
      unfolding nav by (rule nth_map)
    then have "?nav ! i = ?f (Suc i)" by (simp only: idx)
    then show ?thesis using f [of "Suc i"] by simp
  qed
  have all: "\<forall>k \<in> set ?nav. pageKeyToNumber k \<noteq> None"
    unfolding nav using f by auto
  have p: "pageKeys (Some entries) None = sortPageKeys ?ks"
    by (simp add: pageKeys_def Let_def)
  from s m st o p len nth all show ?thesis by blast
qed

theorem pageKeys_order_witness:
  "sortPageKeys [''doc_page_1'', ''cover''] = [] @ ''cover'' # [] @ ''doc_page_1'' # []
   \<and> pageKeyToNumber ''cover'' = None
   \<and> (1::nat) < Suc 1
   \<and> pageKeys (Some twoKeyDoc) (Some (Suc 1)) = [''doc_page_1'', ''pdf_only_page_2'']
   \<and> pageKeyToNumber (pageKeys (Some twoKeyDoc) (Some (Suc 1)) ! 1) = Some (Suc 1)
   \<and> ''pdf_only_page_2'' \<in> set (pageKeys (Some twoKeyDoc) (Some (Suc 1)))
   \<and> pageKeyToNumber ''pdf_only_page_2'' \<noteq> None"
proof -
  have nav: "pageKeys (Some twoKeyDoc) (Some (Suc 1)) = [''doc_page_1'', ''pdf_only_page_2'']"
    by code_simp
  from pageKeys_order [of "[''doc_page_1'', ''cover'']" twoKeyDoc 1]
  have "pageKeyToNumber (pageKeys (Some twoKeyDoc) (Some (Suc 1)) ! 1) = Some (Suc 1)"
    and "\<forall>k \<in> set (pageKeys (Some twoKeyDoc) (Some (Suc 1))). pageKeyToNumber k \<noteq> None"
    by simp_all
  with nav key_example_sort key_examples show ?thesis by simp
qed

text \<open>
  C9. The display name of every leaderboard row is not empty. It is the live profile
  username of the author when the profile query succeeds and returns a row for the
  author with a non-empty username; otherwise the username snapshot stored on an
  upvoted suggestion of the author, when one is not empty; otherwise \<open>user:\<close> followed by
  the first eight characters of the author id. A profile query that fails, or that has
  no row for the author, leads to the second and third case.
\<close>

theorem leaderboard_names:
  "\<forall>r \<in> set (loadLeaderboard (Some rows) profiles).
     lb_username r \<noteq> []
     \<and> lb_username r =
         (case (case profiles (map lb_user_id (leaderboardTop rows)) of
                  None \<Rightarrow> None | Some profs \<Rightarrow> liveName profs (lb_user_id r)) of
            Some n \<Rightarrow> n
          | None \<Rightarrow> if snapshotFor (lb_user_id r) rows \<noteq> [] then snapshotFor (lb_user_id r) rows
                    else ''user:'' @ take 8 (lb_user_id r))"
proof
  fix r
  assume "r \<in> set (loadLeaderboard (Some rows) profiles)"
  then obtain r0 where r0: "r0 \<in> set (leaderboardTop rows)"
    and r: "r = finalName (case profiles (map lb_user_id (leaderboardTop rows)) of
                            None \<Rightarrow> r0 | Some profs \<Rightarrow> enrich (byId profs) r0)"
    by (auto simp: loadLeaderboard_rows)
  from leaderboardTop_props(4) [OF r0]
  have u: "lb_user_id r0 \<noteq> []" and s: "lb_username r0 = snapshotFor (lb_user_id r0) rows"
    by (auto simp: totalFor_def split: if_splits)
  have id: "lb_user_id r = lb_user_id r0" by (simp add: r split: option.splits)
  show "lb_username r \<noteq> []
     \<and> lb_username r =
         (case (case profiles (map lb_user_id (leaderboardTop rows)) of
                  None \<Rightarrow> None | Some profs \<Rightarrow> liveName profs (lb_user_id r)) of
            Some n \<Rightarrow> n
          | None \<Rightarrow> if snapshotFor (lb_user_id r) rows \<noteq> [] then snapshotFor (lb_user_id r) rows
                    else ''user:'' @ take 8 (lb_user_id r))"
  proof (cases "profiles (map lb_user_id (leaderboardTop rows))")
    case None
    then show ?thesis
      unfolding id using s by (simp add: r finalName_def orElse_def fallbackName_def)
  next
    case (Some profs)
    show ?thesis
    proof (cases "liveName profs (lb_user_id r0)")
      case None
      then have "byId profs (lb_user_id r0) = None" using byId_liveName [OF u] by simp
      then show ?thesis
        unfolding id using s Some None
        by (simp add: r finalName_def enrich_def orElse_def orEmpty_def fallbackName_def)
    next
      case (Some n)
      then have b: "byId profs (lb_user_id r0) = Some n" using byId_liveName [OF u] by simp
      from Some have "n \<noteq> []" by (rule liveName_nonempty)
      then show ?thesis
        unfolding id using s \<open>profiles (map lb_user_id (leaderboardTop rows)) = Some profs\<close> Some b
        by (simp add: r finalName_def enrich_def orElse_def orEmpty_def fallbackName_def)
    qed
  qed
qed

theorem leaderboard_names_witness:
  "\<lparr>lb_user_id = ''X'', lb_upvotes = 3, lb_username = ''xavier''\<rparr>
       \<in> set (loadLeaderboard (Some exampleVotes) failingProfiles)
   \<and> failingProfiles (map lb_user_id (leaderboardTop exampleVotes)) = None
   \<and> snapshotFor ''X'' exampleVotes = ''xavier''
   \<and> \<lparr>lb_user_id = ''X'', lb_upvotes = 3, lb_username = ''Xavier''\<rparr>
       \<in> set (loadLeaderboard (Some exampleVotes) liveProfiles)
   \<and> liveName (the (liveProfiles (map lb_user_id (leaderboardTop exampleVotes)))) ''X'' = Some ''Xavier''
   \<and> loadLeaderboard (Some [voteFor 1 ''0123456789'' '' '']) failingProfiles
       = [\<lparr>lb_user_id = ''0123456789'', lb_upvotes = 1, lb_username = ''user:01234567''\<rparr>]
   \<and> snapshotFor ''0123456789'' [voteFor 1 ''0123456789'' '' ''] = []"
proof -
  have a: "\<lparr>lb_user_id = ''X'', lb_upvotes = 3, lb_username = ''xavier''\<rparr>
       \<in> set (loadLeaderboard (Some exampleVotes) failingProfiles)"
    by (simp add: example_leaderboards)
  have b: "failingProfiles (map lb_user_id (leaderboardTop exampleVotes)) = None"
    by (simp add: failingProfiles_def)
  from leaderboard_names [of exampleVotes failingProfiles] a b
  have "''xavier'' = (if snapshotFor ''X'' exampleVotes \<noteq> [] then snapshotFor ''X'' exampleVotes
                      else ''user:'' @ take 8 ''X'')"
    by fastforce
  then have c: "snapshotFor ''X'' exampleVotes = ''xavier''"
    by (simp split: if_splits)
  have d: "liveName (the (liveProfiles (map lb_user_id (leaderboardTop exampleVotes)))) ''X'' = Some ''Xavier''"
    "snapshotFor ''0123456789'' [voteFor 1 ''0123456789'' '' ''] = []"
    by code_simp+
  from a b c d example_leaderboards show ?thesis by simp
qed

text \<open>
  C10. Stated as it is, the claim fails in both halves. The highlight is also reset when
  the pointer leaves a line of the transcript pane, without any event of the rendered page.
  And a frame scheduled before another page was rendered picks from the index of the
  render that scheduled it: after a move at a point in no box of the current (empty)
  index it makes line \<open>2-5\<close> active.
\<close>

theorem pointer_miss_stale_frame_counterexample:
  "highlight (run False [LineEnter ''2-5''] idleState)
     = (Some ''2-5'', Some SrcRight, Some (rectOf smallBox))
   \<and> highlight (run False [LineEnter ''2-5'', LineLeave] idleState) = (None, None, None)
   \<and> hitBoxes (run False [PointerMove pointerInside, SelectPage ''doc_page_2'', PageRendered] idleState) = []
   \<and> highlight (run False [PointerMove pointerInside, SelectPage ''doc_page_2'', PageRendered] idleState)
       = (None, None, None)
   \<and> highlight (run False [PointerMove pointerInside, SelectPage ''doc_page_2'', PageRendered,
                            PointerMove pointerInside, AnimationFrame] idleState)
       = (Some ''2-5'', Some SrcLeft, None)"
proof -
  have a: "highlight (run False [LineEnter ''2-5''] idleState)
             = (Some ''2-5'', Some SrcRight, Some (rectOf smallBox))"
    by (simp add: run_def lineMouseEnter_def highlight_def idleState_def)
  have b: "highlight (run False [LineEnter ''2-5'', LineLeave] idleState) = (None, None, None)"
    by (simp add: run_def lineMouseLeave_def highlight_def)
  have c: "run False [PointerMove pointerInside, SelectPage ''doc_page_2'', PageRendered] idleState
             = staleState"
    by (simp add: run_def stale_run)
  have d: "run False [PointerMove pointerInside, SelectPage ''doc_page_2'', PageRendered,
                      PointerMove pointerInside, AnimationFrame] idleState
             = hoverFrame (onHitSvgMouseMove pointerInside staleState)"
    by (simp add: run_def stale_run)
  have e: "hitBoxes staleState = []" "highlight staleState = (None, None, None)"
    by (simp_all add: staleState_def idleState_def highlight_def)
  have f: "highlight (hoverFrame (onHitSvgMouseMove pointerInside staleState))
             = (Some ''2-5'', Some SrcLeft, None)"
    by (rule stale_frame)
  from a b e f show ?thesis unfolding c d by simp
qed

text \<open>
  C10, amended. A pointer move over the rendered page never changes the highlight state
  (active line, source, highlight box) by itself. A pending frame picks from the index of
  the render that scheduled it, at the latest point, and leaves the three as they are
  when no box of that index contains the point; so a move at a point in no indexed box,
  followed by its frame, leaves them as they are whenever no frame is pending at the move
  or the pending one was scheduled with the current index. The three are reset when the
  pointer leaves the rendered page and when it leaves a line of the transcript; the
  completed render of a page clears the highlight box, and the active line too when the
  page has no transcription. No other event of the viewer takes an active line away.
\<close>

theorem pointer_miss_keeps_highlight:
  "highlight (onHitSvgMouseMove e s) = highlight s
   \<and> (\<forall>c pt. hoverRaf s = Some c \<and> hoverPt s = Some pt
          \<and> pickBoxAt (fc_hitBoxes c) (clamp01 (fst pt)) (clamp01 (snd pt)) = None
        \<longrightarrow> highlight (hoverFrame s) = highlight s)
   \<and> ((case hoverRaf s of None \<Rightarrow> True | Some c \<Rightarrow> fc_hitBoxes c = hitBoxes s) \<and> \<not> emptyRect e
        \<and> pickBoxAt (hitBoxes s) (clamp01 (pointU e)) (clamp01 (pointV e)) = None
        \<longrightarrow> highlight (hoverFrame (onHitSvgMouseMove e s)) = highlight s)
   \<and> highlight (onHitSvgMouseLeave s) = (None, None, None)
   \<and> highlight (lineMouseLeave s) = (None, None, None)
   \<and> activeBox (renderEffect production s) = (if doc s = None \<or> pageKey s = [] then activeBox s else None)
   \<and> activeSource (renderEffect production s) = activeSource s
   \<and> activeId (renderEffect production s)
       = (if noTranscription s \<and> doc s \<noteq> None \<and> pageKey s \<noteq> [] then None else activeId s)
   \<and> (\<forall>ev. highlight (viewerStep production ev s) \<noteq> highlight s
            \<and> activeId (viewerStep production ev s) = None
          \<longrightarrow> ev = PointerLeave \<or> ev = LineLeave \<or> ev = PageRendered)"
proof -
  have m: "highlight (onHitSvgMouseMove e s) = highlight s" for e
    by (simp add: onHitSvgMouseMove_def highlight_def Let_def)
  have f: "highlight (hoverFrame s) \<noteq> highlight s \<Longrightarrow> activeId (hoverFrame s) \<noteq> None"
    by (auto simp: hoverFrame_def highlight_def Let_def split: option.splits if_splits)
  have c: "highlight (onHitSvgClick e s) \<noteq> highlight s \<Longrightarrow> activeId (onHitSvgClick e s) \<noteq> None" for e
    by (auto simp: onHitSvgClick_def highlight_def Let_def split: option.splits if_splits)
  have t: "activeId (lineMouseEnter u s) \<noteq> None" "activeId (lineClick u s) \<noteq> None"
    "highlight (selectPage u s) = highlight s" for u
    by (simp_all add: lineMouseEnter_def lineClick_def selectPage_def highlight_def)
  have only: "highlight (viewerStep production ev s) \<noteq> highlight s
            \<and> activeId (viewerStep production ev s) = None
          \<longrightarrow> ev = PointerLeave \<or> ev = LineLeave \<or> ev = PageRendered" for ev
    using m f c t by (cases ev) auto
  have g: "hoverRaf s = Some c \<and> hoverPt s = Some pt
          \<and> pickBoxAt (fc_hitBoxes c) (clamp01 (fst pt)) (clamp01 (snd pt)) = None
        \<longrightarrow> highlight (hoverFrame s) = highlight s" for c pt
    by (auto simp: hoverFrame_def highlight_def Let_def)
  have h: "(case hoverRaf s of None \<Rightarrow> True | Some c \<Rightarrow> fc_hitBoxes c = hitBoxes s) \<and> \<not> emptyRect e
        \<and> pickBoxAt (hitBoxes s) (clamp01 (pointU e)) (clamp01 (pointV e)) = None
        \<longrightarrow> highlight (hoverFrame (onHitSvgMouseMove e s)) = highlight s"
    by (auto simp: hoverFrame_def onHitSvgMouseMove_def highlight_def Let_def split: option.splits)
  have l: "highlight (onHitSvgMouseLeave s) = (None, None, None)"
    "highlight (lineMouseLeave s) = (None, None, None)"
    by (simp_all add: onHitSvgMouseLeave_def lineMouseLeave_def highlight_def)
  have r: "activeBox (renderEffect production s) = (if doc s = None \<or> pageKey s = [] then activeBox s else None)"
    "activeSource (renderEffect production s) = activeSource s"
    "activeId (renderEffect production s)
       = (if noTranscription s \<and> doc s \<noteq> None \<and> pageKey s \<noteq> [] then None else activeId s)"
    by (auto simp: renderEffect_def noTranscription_def Let_def split: option.splits)
  from m g h l r only show ?thesis by blast
qed

theorem pointer_miss_keeps_highlight_witness:
  "hoverRaf collapsedState = None \<and> \<not> emptyRect pointerOutside
   \<and> pickBoxAt (hitBoxes collapsedState) (clamp01 (pointU pointerOutside)) (clamp01 (pointV pointerOutside))
       = None
   \<and> highlight (hoverFrame (onHitSvgMouseMove pointerOutside collapsedState))
       = (Some ''2-5'', Some SrcLeft, Some (rectOf smallBox))
   \<and> highlight (viewerStep False PointerLeave collapsedState) \<noteq> highlight collapsedState
   \<and> activeId (viewerStep False PointerLeave collapsedState) = None
   \<and> highlight (viewerStep False LineLeave collapsedState) = (None, None, None)"
proof -
  have h: "hoverRaf collapsedState = None" "\<not> emptyRect pointerOutside"
    "pickBoxAt (hitBoxes collapsedState) (clamp01 (pointU pointerOutside)) (clamp01 (pointV pointerOutside))
       = None"
    by (simp_all add: collapsedState_def idleState_def example_rects example_points example_contains)
  have g: "highlight collapsedState = (Some ''2-5'', Some SrcLeft, Some (rectOf smallBox))"
    by (simp add: highlight_def collapsedState_def)
  have l: "highlight (viewerStep False PointerLeave collapsedState) \<noteq> highlight collapsedState"
    "activeId (viewerStep False PointerLeave collapsedState) = None"
    by (simp_all add: highlight_def collapsedState_def onHitSvgMouseLeave_def)
  note t = pointer_miss_keeps_highlight [of pointerOutside collapsedState False]
  from t h
  have "highlight (hoverFrame (onHitSvgMouseMove pointerOutside collapsedState)) = highlight collapsedState"
    by simp
  moreover from t have "highlight (viewerStep False LineLeave collapsedState) = (None, None, None)"
    by simp
  ultimately show ?thesis using h g l by simp
qed

end
